theory Spec2Isabelle
  imports Main "HOL-Library.Word"
begin

section \<open>Data model of os.c\<close>

text \<open>
  The kernel runs on a 32-bit core: \<^verbatim>\<open>uint32_t\<close>, \<^verbatim>\<open>size_t\<close> and every pointer are
  32-bit words, and arithmetic on them wraps around.
\<close>

type_synonym u32 = "32 word"

text \<open>
  \<^verbatim>\<open>os_error_t\<close> is declared in os.h; os.c uses these five enumerators.
\<close>

datatype os_error_t =
  OS_ERROR_OK
| OS_ERROR_WRONG_STATE
| OS_ERROR_NO_MEM
| OS_ERROR_INVALID_PARAM
| OS_ERROR_TASK_FINISHED

text \<open>
  \<^verbatim>\<open>os_task_status_t\<close> numbers its enumerators from 1. The task table is cleared with
  \<^verbatim>\<open>memset\<close>, so a slot that was never registered holds the value 0, which is none of
  the three: \<open>OS_TASK_STATUS_ZERO\<close> stands for it.
\<close>

datatype os_task_status_t =
  OS_TASK_STATUS_ZERO
| OS_TASK_STATUS_IDLE
| OS_TASK_STATUS_ACTIVE
| OS_TASK_STATUS_WAITING

record os_task_t =
  sp :: u32
  handler :: u32
  p_params :: u32
  wait_ticks :: u32
  status :: os_task_status_t

datatype os_state_t =
  OS_STATE_DEFAULT
| OS_STATE_INITIALIZED
| OS_STATE_TASKS_INITIALIZED
| OS_STATE_STARTED

text \<open>
  Calls across the hardware boundary (CMSIS intrinsics and the write to
  \<^verbatim>\<open>SCB->ICSR\<close>) are recorded, in program order, in a log.
\<close>

datatype irq_t = PendSV_IRQn | SVC_IRQn | SysTick_IRQn

datatype hw_event =
  DISABLE_IRQ
| ENABLE_IRQ
| PENDSVSET
| NVIC_SETPRIORITY irq_t u32
| SYSTICK_CONFIG u32
| SET_PSP u32
| SET_CONTROL u32
| ISB
| CALL_HANDLER u32 u32

text \<open>
  The file-scope variables of os.c. \<open>tasks\<close>, \<open>current_task\<close> and \<open>size'\<close> are the
  members of \<^verbatim>\<open>m_task_table\<close>. The exported pointers \<^verbatim>\<open>os_curr_task\<close> and
  \<^verbatim>\<open>os_next_task\<close> only ever point at elements of \<^verbatim>\<open>m_task_table.tasks\<close>: \<open>Some i\<close> is
  the address of element \<open>i\<close>, \<open>None\<close> the null pointer. \<open>ram\<close> is the memory the task
  stacks live in, addressed by byte address and read one aligned word at a time; the
  stacks that callers hand in are taken not to overlap the variables of os.c.
\<close>

record kernel =
  m_state :: os_state_t
  tasks :: "os_task_t list"
  current_task :: u32
  size' :: u32
  os_curr_task :: "u32 option"
  os_next_task :: "u32 option"
  ram :: "u32 \<Rightarrow> u32"
  hw :: "hw_event list"

text \<open>
  What os.c takes from os.h, os_idle_task.h and the platform: the configured number of
  tasks, whether \<^verbatim>\<open>OS_CONFIG_DEBUG\<close> is defined, the address of the static function
  \<^verbatim>\<open>task_finished\<close>, the result of CMSIS \<^verbatim>\<open>SysTick_Config\<close>, and the handler,
  parameter and stack the idle-task module registers.
\<close>

record config =
  OS_CONFIG_MAX_TASKS :: nat
  OS_CONFIG_DEBUG :: bool
  task_finished :: u32
  SysTick_Config :: "u32 \<Rightarrow> u32"
  idle_task_handler :: u32
  idle_task_params :: u32
  idle_task_stack :: u32
  idle_task_stack_size :: u32

definition OS_TASKS_COUNT :: "config \<Rightarrow> nat" where
  "OS_TASKS_COUNT cfg = OS_CONFIG_MAX_TASKS cfg + 1"

definition zero_task :: os_task_t where
  "zero_task = \<lparr>sp = 0, handler = 0, p_params = 0, wait_ticks = 0, status = OS_TASK_STATUS_ZERO\<rparr>"

text \<open>
  The state at program start: statics are zero-initialised, \<^verbatim>\<open>m_state\<close> has its
  initialiser, nothing has been logged. The contents of the stack memory are arbitrary.
\<close>

definition boot :: "config \<Rightarrow> (u32 \<Rightarrow> u32) \<Rightarrow> kernel" where
  "boot cfg ram0 =
     \<lparr>m_state = OS_STATE_DEFAULT,
      tasks = replicate (OS_TASKS_COUNT cfg) zero_task,
      current_task = 0, size' = 0,
      os_curr_task = None, os_next_task = None,
      ram = ram0, hw = []\<rparr>"

section \<open>The scheduler\<close>

definition set_status :: "os_task_status_t \<Rightarrow> nat \<Rightarrow> os_task_t list \<Rightarrow> os_task_t list" where
  "set_status st i ts = ts[i := (ts ! i)\<lparr>status := st\<rparr>]"

text \<open>
  The \<^verbatim>\<open>for\<close> loop of \<^verbatim>\<open>reschedule\<close> (lines 67-73), from index \<open>i\<close> on. The result is
  the value of \<^verbatim>\<open>no_ready_task\<close> after the loop; \<open>None\<close> is a read past the end of the
  array. The counter is an \<^verbatim>\<open>int\<close> that stays below \<open>size'\<close>; it is a natural number
  here.
\<close>

function idle_scan :: "os_task_t list \<Rightarrow> u32 \<Rightarrow> nat \<Rightarrow> bool option" where
  "idle_scan ts sz i =
     (if i < unat sz then
        (if i < length ts then
           (if status (ts ! i) = OS_TASK_STATUS_IDLE then Some False
            else idle_scan ts sz (Suc i))
         else None)
      else Some True)"
  by pat_completeness auto
termination
  by (relation "measure (\<lambda>(ts, sz, i). unat sz - i)") auto

declare idle_scan.simps [simp del]

text \<open>
  One pass through the body of the \<^verbatim>\<open>do ... while\<close> loop (lines 83-85): the slot the
  scan moves to from slot \<open>c\<close>.
\<close>

definition advance :: "u32 \<Rightarrow> u32 \<Rightarrow> u32" where
  "advance sz c = (if c + 1 \<ge> sz then 1 else c + 1)"

text \<open>
  The \<^verbatim>\<open>do ... while\<close> loop (lines 82-88), started with \<^verbatim>\<open>current_task = c\<close>. It returns
  the value of \<^verbatim>\<open>current_task\<close> at exit. The loop has no bound of its own: \<open>None\<close> is
  a run that never leaves it, or a read past the end of the array.
\<close>

partial_function (option) select_next :: "os_task_t list \<Rightarrow> u32 \<Rightarrow> u32 \<Rightarrow> u32 option" where
  "select_next ts sz c =
     (if unat (advance sz c) < length ts then
        (if status (ts ! unat (advance sz c)) \<noteq> OS_TASK_STATUS_IDLE
         then select_next ts sz (advance sz c)
         else Some (advance sz c))
      else None)"

text \<open>
  Lines 59-74: take the current task, and decide whether some task is ready. The result
  is \<^verbatim>\<open>no_ready_task\<close> and the task array after the step.
\<close>

definition check_ready :: "kernel \<Rightarrow> (bool \<times> os_task_t list) option" where
  "check_ready s =
     (if current_task s \<noteq> 0 then
        (if unat (current_task s) < length (tasks s) then
           (if status (tasks s ! unat (current_task s)) = OS_TASK_STATUS_ACTIVE
            then Some (False, set_status OS_TASK_STATUS_IDLE (unat (current_task s)) (tasks s))
            else map_option (\<lambda>b. (b, tasks s)) (idle_scan (tasks s) (size' s) 1))
         else None)
      else map_option (\<lambda>b. (b, tasks s)) (idle_scan (tasks s) (size' s) 1))"

text \<open>
  Lines 76-89: the slot of the next task, \<open>0\<close> when no task is ready.
\<close>

definition pick_next :: "bool \<Rightarrow> os_task_t list \<Rightarrow> u32 \<Rightarrow> u32 \<Rightarrow> u32 option" where
  "pick_next no_ready_task ts sz c =
     (if no_ready_task then (if 0 < length ts then Some 0 else None)
      else select_next ts sz c)"

definition reschedule :: "kernel \<Rightarrow> kernel option" where
  "reschedule s =
     (case check_ready s of
        None \<Rightarrow> None
      | Some (no_ready_task, ts) \<Rightarrow>
          (case pick_next no_ready_task ts (size' s) (current_task s) of
             None \<Rightarrow> None
           | Some n \<Rightarrow>
               Some (s\<lparr>tasks := set_status OS_TASK_STATUS_ACTIVE (unat n) ts,
                       current_task := n,
                       os_curr_task := Some (current_task s),
                       os_next_task := Some n,
                       hw := hw s @ [DISABLE_IRQ]
                               @ (if Some (current_task s) \<noteq> Some n then [PENDSVSET] else [])
                               @ [ENABLE_IRQ]\<rparr>)))"

section \<open>Lifecycle operations\<close>

text \<open>
  Address of \<^verbatim>\<open>p_stack[i]\<close>: the stack holds 4-byte words (the comment at line 131 counts
  16 words as 64 bytes, and \<^verbatim>\<open>os_start\<close> adds 64 to step over them).
\<close>

definition stack_slot :: "u32 \<Rightarrow> u32 \<Rightarrow> u32" where
  "stack_slot p_stack i = p_stack + 4 * i"

text \<open>
  The block under \<^verbatim>\<open>#ifdef OS_CONFIG_DEBUG\<close> (lines 149-162).
\<close>

definition debug_fill :: "u32 \<Rightarrow> u32 \<Rightarrow> u32 \<Rightarrow> (u32 \<Rightarrow> u32) \<Rightarrow> (u32 \<Rightarrow> u32)" where
  "debug_fill sz p_stack stack_size m =
     (let base = (sz + 1) * 1000 in
      m(stack_slot p_stack (stack_size - 4) := base + 12,
        stack_slot p_stack (stack_size - 5) := base + 3,
        stack_slot p_stack (stack_size - 6) := base + 2,
        stack_slot p_stack (stack_size - 7) := base + 1,
        stack_slot p_stack (stack_size - 9) := base + 7,
        stack_slot p_stack (stack_size - 10) := base + 6,
        stack_slot p_stack (stack_size - 11) := base + 5,
        stack_slot p_stack (stack_size - 12) := base + 4,
        stack_slot p_stack (stack_size - 13) := base + 11,
        stack_slot p_stack (stack_size - 14) := base + 10,
        stack_slot p_stack (stack_size - 15) := base + 9,
        stack_slot p_stack (stack_size - 16) := base + 8))"

text \<open>
  Lines 143-146.
\<close>

definition init_frame :: "config \<Rightarrow> u32 \<Rightarrow> u32 \<Rightarrow> u32 \<Rightarrow> u32 \<Rightarrow> (u32 \<Rightarrow> u32) \<Rightarrow> (u32 \<Rightarrow> u32)" where
  "init_frame cfg hdl p_task_params p_stack stack_size m =
     m(stack_slot p_stack (stack_size - 1) := 0x01000000,
       stack_slot p_stack (stack_size - 2) := hdl,
       stack_slot p_stack (stack_size - 3) := task_finished cfg,
       stack_slot p_stack (stack_size - 8) := p_task_params)"

text \<open>
  \<^verbatim>\<open>os_task_init\<close>. The bound \<^verbatim>\<open>OS_TASKS_COUNT-1\<close> is an \<^verbatim>\<open>int\<close> that the comparison
  converts to \<^verbatim>\<open>uint32_t\<close>.
\<close>

definition os_task_init :: "config \<Rightarrow> u32 \<Rightarrow> u32 \<Rightarrow> u32 \<Rightarrow> u32 \<Rightarrow> kernel \<Rightarrow> os_error_t \<times> kernel" where
  "os_task_init cfg hdl p_task_params p_stack stack_size s =
     (if m_state s \<noteq> OS_STATE_INITIALIZED \<and> m_state s \<noteq> OS_STATE_TASKS_INITIALIZED
      then (OS_ERROR_WRONG_STATE, s)
      else if size' s \<ge> of_nat (OS_TASKS_COUNT cfg - 1)
      then (OS_ERROR_NO_MEM, s)
      else
        (let p_task = (tasks s ! unat (size' s))
               \<lparr>handler := hdl, p_params := p_task_params,
                sp := stack_slot p_stack (stack_size - 16),
                status := OS_TASK_STATUS_IDLE\<rparr>;
             m1 = init_frame cfg hdl p_task_params p_stack stack_size (ram s);
             m2 = (if OS_CONFIG_DEBUG cfg then debug_fill (size' s) p_stack stack_size m1 else m1)
         in (OS_ERROR_OK,
             s\<lparr>tasks := (tasks s)[unat (size' s) := p_task],
               ram := m2,
               m_state := OS_STATE_TASKS_INITIALIZED,
               size' := size' s + 1\<rparr>)))"

text \<open>
  Modelled from the spec: \<^verbatim>\<open>os_idle_task_init\<close> is defined in the idle-task module, which
  is not part of the sources at hand. The spec says that it "registers the idle task into
  slot 0" and returns success or failure. The task table is \<^verbatim>\<open>static\<close> in os.c, and
  \<^verbatim>\<open>os_init\<close> moves to \<^verbatim>\<open>OS_STATE_INITIALIZED\<close> before the call, so the registration
  goes through \<^verbatim>\<open>os_task_init\<close>, with the idle module's own handler, parameter and stack.
\<close>

definition os_idle_task_init :: "config \<Rightarrow> kernel \<Rightarrow> os_error_t \<times> kernel" where
  "os_idle_task_init cfg s =
     os_task_init cfg (idle_task_handler cfg) (idle_task_params cfg)
       (idle_task_stack cfg) (idle_task_stack_size cfg) s"

definition os_init :: "config \<Rightarrow> kernel \<Rightarrow> os_error_t \<times> kernel" where
  "os_init cfg s =
     (if m_state s \<noteq> OS_STATE_DEFAULT then (OS_ERROR_WRONG_STATE, s)
      else
        (let s1 = s\<lparr>tasks := replicate (OS_TASKS_COUNT cfg) zero_task,
                    current_task := 0, size' := 0\<rparr>;
             s2 = s1\<lparr>m_state := OS_STATE_INITIALIZED\<rparr>;
             r = os_idle_task_init cfg s2
         in if fst r \<noteq> OS_ERROR_OK
            then (fst r, (snd r)\<lparr>m_state := OS_STATE_DEFAULT\<rparr>)
            else (OS_ERROR_OK, (snd r)\<lparr>current_task := 1\<rparr>)))"

text \<open>
  \<^verbatim>\<open>os_start\<close> up to the point where it calls the first task's handler. The handler
  is the task's body and is not expected to return; the state given back is the one the
  task starts to run in. \<open>None\<close> is a read past the end of the array.
\<close>

definition os_start :: "config \<Rightarrow> u32 \<Rightarrow> kernel \<Rightarrow> (os_error_t \<times> kernel) option" where
  "os_start cfg systick_ticks s =
     (if m_state s \<noteq> OS_STATE_TASKS_INITIALIZED then Some (OS_ERROR_WRONG_STATE, s)
      else
        (let s1 = s\<lparr>hw := hw s @ [NVIC_SETPRIORITY PendSV_IRQn 0xff,
                                   NVIC_SETPRIORITY SVC_IRQn 0x00,
                                   NVIC_SETPRIORITY SysTick_IRQn 0x00,
                                   SYSTICK_CONFIG systick_ticks]\<rparr>
         in if SysTick_Config cfg systick_ticks \<noteq> 0 then Some (OS_ERROR_INVALID_PARAM, s1)
            else if unat (current_task s1) < length (tasks s1) then
              (let t = tasks s1 ! unat (current_task s1)
               in Some (OS_ERROR_OK,
                    s1\<lparr>os_curr_task := Some (current_task s1),
                       m_state := OS_STATE_STARTED,
                       hw := hw s1 @ [SET_PSP (sp t + 64), SET_CONTROL 0x03, ISB,
                                      CALL_HANDLER (handler t) (p_params t)]\<rparr>))
            else None))"

section \<open>Delay, tick and supervisor call\<close>

definition os_svcall_handler :: "8 word \<Rightarrow> kernel \<Rightarrow> kernel option" where
  "os_svcall_handler svc_num s = (if svc_num = 0x01 then reschedule s else Some s)"

text \<open>
  Lines 200-210 of \<^verbatim>\<open>os_delay\<close>: the state check and the critical section that marks
  the calling task.
\<close>

definition os_delay_mark :: "u32 \<Rightarrow> kernel \<Rightarrow> (os_error_t \<times> kernel) option" where
  "os_delay_mark ticks s =
     (if m_state s \<noteq> OS_STATE_STARTED then Some (OS_ERROR_WRONG_STATE, s)
      else if unat (current_task s) < length (tasks s) then
        Some (OS_ERROR_OK,
          s\<lparr>tasks := (tasks s)[unat (current_task s) :=
                        (tasks s ! unat (current_task s))
                          \<lparr>status := OS_TASK_STATUS_WAITING, wait_ticks := ticks\<rparr>],
            hw := hw s @ [DISABLE_IRQ, ENABLE_IRQ]\<rparr>)
      else None)"

text \<open>
  \<^verbatim>\<open>os_delay\<close> up to its busy-wait: the marking, then \<^verbatim>\<open>svc 0x01\<close>, which enters
  \<^verbatim>\<open>os_svcall_handler\<close>. The loop at line 214 changes nothing; the call returns once
  the tick handler has changed the status of the task.
\<close>

definition os_delay :: "u32 \<Rightarrow> kernel \<Rightarrow> (os_error_t \<times> kernel) option" where
  "os_delay ticks s =
     (case os_delay_mark ticks s of
        None \<Rightarrow> None
      | Some (err, s1) \<Rightarrow>
          (if err \<noteq> OS_ERROR_OK then Some (err, s1)
           else map_option (\<lambda>s2. (OS_ERROR_OK, s2)) (os_svcall_handler 0x01 s1)))"

text \<open>
  The body of the loop of \<^verbatim>\<open>SysTick_Handler\<close> (lines 225-230) on one task.
\<close>

definition tick_task :: "os_task_t \<Rightarrow> os_task_t" where
  "tick_task t =
     (if status t = OS_TASK_STATUS_WAITING then
        (if wait_ticks t - 1 = 0
         then t\<lparr>wait_ticks := wait_ticks t - 1, status := OS_TASK_STATUS_IDLE\<rparr>
         else t\<lparr>wait_ticks := wait_ticks t - 1\<rparr>)
      else t)"

text \<open>
  The loop of \<^verbatim>\<open>SysTick_Handler\<close> (lines 224-231), from index \<open>i\<close> on.
\<close>

function tick_loop :: "u32 \<Rightarrow> nat \<Rightarrow> os_task_t list \<Rightarrow> os_task_t list option" where
  "tick_loop sz i ts =
     (if i < unat sz then
        (if i < length ts then tick_loop sz (Suc i) (ts[i := tick_task (ts ! i)])
         else None)
      else Some ts)"
  by pat_completeness auto
termination
  by (relation "measure (\<lambda>(sz, i, ts). unat sz - i)") auto

declare tick_loop.simps [simp del]

text \<open>
  Modelled from the spec: \<^verbatim>\<open>os_reschedule\<close> comes from os.h, which is not part of the
  sources at hand. The spec says that the tick service, after updating all counters,
  "unconditionally invoke[s] the Scheduler".
\<close>

definition os_reschedule :: "kernel \<Rightarrow> kernel option" where
  "os_reschedule s = reschedule s"

definition SysTick_Handler :: "kernel \<Rightarrow> kernel option" where
  "SysTick_Handler s =
     (case tick_loop (size' s) 1 (tasks s) of
        None \<Rightarrow> None
      | Some ts \<Rightarrow> os_reschedule (s\<lparr>tasks := ts\<rparr>))"

section \<open>Runs of the system\<close>

text \<open>
  What can happen to the kernel: a call of one of the four API functions, a call of
  \<^verbatim>\<open>os_delay\<close> that is interrupted between its critical section and its supervisor call
  (\<open>DelayMark\<close>), a tick, or a supervisor call.
\<close>

datatype event =
  Init
| TaskInit u32 u32 u32 u32
| Start u32
| Delay u32
| DelayMark u32
| Tick
| Svc "8 word"

fun step :: "config \<Rightarrow> event \<Rightarrow> kernel \<Rightarrow> kernel option" where
  "step cfg Init s = Some (snd (os_init cfg s))"
| "step cfg (TaskInit h p st n) s = Some (snd (os_task_init cfg h p st n s))"
| "step cfg (Start t) s = map_option snd (os_start cfg t s)"
| "step cfg (Delay t) s = map_option snd (os_delay t s)"
| "step cfg (DelayMark t) s = map_option snd (os_delay_mark t s)"
| "step cfg Tick s = SysTick_Handler s"
| "step cfg (Svc n) s = os_svcall_handler n s"

fun run :: "config \<Rightarrow> event list \<Rightarrow> kernel \<Rightarrow> kernel option" where
  "run cfg [] s = Some s"
| "run cfg (e # es) s = (case step cfg e s of None \<Rightarrow> None | Some s' \<Rightarrow> run cfg es s')"

inductive reachable :: "config \<Rightarrow> kernel \<Rightarrow> bool" for cfg :: config where
  reachable_boot: "reachable cfg (boot cfg ram0)"
| reachable_step: "reachable cfg s \<Longrightarrow> step cfg e s = Some s' \<Longrightarrow> reachable cfg s'"

section \<open>Notions the properties are stated with\<close>

text \<open>
  The user slots of a table of \<open>n\<close> occupied slots in round-robin order after slot \<open>c\<close>:
  the slots behind \<open>c\<close> up to the last one, then from slot 1 up to \<open>c\<close>. Slot 0, the idle
  task, is not among them.
\<close>

definition rr_order :: "nat \<Rightarrow> nat \<Rightarrow> nat list" where
  "rr_order c n = [Suc c..<n] @ [1..<min (Suc c) n]"

text \<open>
  A slot is ready when its task is idle, or when it is the current slot and its task is
  active (it runs and has not blocked).
\<close>

definition user_ready :: "kernel \<Rightarrow> nat \<Rightarrow> bool" where
  "user_ready s i \<longleftrightarrow>
     status (tasks s ! i) = OS_TASK_STATUS_IDLE
     \<or> (i = unat (current_task s) \<and> status (tasks s ! i) = OS_TASK_STATUS_ACTIVE)"

text \<open>
  The task array after the check at lines 62-74: the current task, when it is a user task
  and active, has been marked idle.
\<close>

definition after_check :: "kernel \<Rightarrow> os_task_t list" where
  "after_check s =
     (if current_task s \<noteq> 0 \<and> status (tasks s ! unat (current_task s)) = OS_TASK_STATUS_ACTIVE
      then set_status OS_TASK_STATUS_IDLE (unat (current_task s)) (tasks s)
      else tasks s)"

definition ready_queue :: "kernel \<Rightarrow> nat list" where
  "ready_queue s =
     filter (user_ready s) (rr_order (unat (current_task s)) (unat (size' s)))"



text \<open>
  A sequence of calls of \<^verbatim>\<open>os_task_init\<close>; the error codes, in order, and the state
  after the last.
\<close>

fun create_tasks :: "config \<Rightarrow> (u32 \<times> u32 \<times> u32 \<times> u32) list \<Rightarrow> kernel \<Rightarrow> os_error_t list \<times> kernel" where
  "create_tasks cfg [] s = ([], s)"
| "create_tasks cfg ((h, p, st, n) # as) s =
     (let r = os_task_init cfg h p st n s;
          rs = create_tasks cfg as (snd r)
      in (fst r # fst rs, snd rs))"

definition ticks_in :: "event list \<Rightarrow> nat" where
  "ticks_in es = length (filter (\<lambda>e. e = Tick) es)"

text \<open>
  What every state of a run satisfies: the array has its declared length, the table is
  not over-full, the current slot is inside the array and is below \<open>size'\<close> once it is
  above 1, and a user task that is active is the current one, in an occupied slot.
\<close>

definition kernel_inv :: "config \<Rightarrow> kernel \<Rightarrow> bool" where
  "kernel_inv cfg s \<longleftrightarrow>
     length (tasks s) = OS_TASKS_COUNT cfg
     \<and> size' s \<le> of_nat (OS_TASKS_COUNT cfg - 1)
     \<and> unat (current_task s) < length (tasks s)
     \<and> (current_task s \<le> 1 \<or> current_task s < size' s)
     \<and> (\<forall>i. 1 \<le> i \<and> i < length (tasks s) \<and> status (tasks s ! i) = OS_TASK_STATUS_ACTIVE
            \<longrightarrow> i = unat (current_task s) \<and> current_task s < size' s)"

text \<open>
  The task in user slot \<open>p\<close> is blocked in \<^verbatim>\<open>os_delay\<close> with \<open>r\<close> ticks to go: the
  system is started, the slot is occupied, it is not the current one, its status is
  waiting and its counter is \<open>r\<close>.
\<close>

definition delayed :: "config \<Rightarrow> nat \<Rightarrow> nat \<Rightarrow> kernel \<Rightarrow> bool" where
  "delayed cfg p r s \<longleftrightarrow>
     kernel_inv cfg s \<and> m_state s = OS_STATE_STARTED
     \<and> 1 \<le> p \<and> p < unat (size' s) \<and> unat (current_task s) \<noteq> p
     \<and> status (tasks s ! p) = OS_TASK_STATUS_WAITING
     \<and> unat (wait_ticks (tasks s ! p)) = r"

text \<open>
  No task that waits has a counter of zero.
\<close>

definition ticks_positive :: "kernel \<Rightarrow> bool" where
  "ticks_positive s \<longleftrightarrow>
     (\<forall>i < length (tasks s).
        status (tasks s ! i) = OS_TASK_STATUS_WAITING \<longrightarrow> wait_ticks (tasks s ! i) \<noteq> 0)"

text \<open>
  No call of \<^verbatim>\<open>os_delay\<close> in a run asks for zero ticks.
\<close>

definition nonzero_delays :: "event list \<Rightarrow> bool" where
  "nonzero_delays es \<longleftrightarrow> Delay 0 \<notin> set es \<and> DelayMark 0 \<notin> set es"

section \<open>A concrete system\<close>

text \<open>
  A production configuration with \<^verbatim>\<open>OS_CONFIG_MAX_TASKS = 3\<close>, two initial contents
  of the stack memory, and the states that the API calls lead through. \<open>SysTick_Config\<close>
  is the CMSIS one, which rejects a reload value that does not fit 24 bits.
\<close>

definition cfg3 :: config where
  "cfg3 = \<lparr>OS_CONFIG_MAX_TASKS = 3, OS_CONFIG_DEBUG = False, task_finished = 0x08000101,
           SysTick_Config = (\<lambda>t. if t - 1 > 0xFFFFFF then 1 else 0),
           idle_task_handler = 0x08000201, idle_task_params = 0, idle_task_stack = 0x20000000,
           idle_task_stack_size = 32\<rparr>"

text \<open>
  The same configuration with \<^verbatim>\<open>OS_CONFIG_MAX_TASKS = 1\<close>: an array of two slots.
\<close>

definition cfg1 :: config where
  "cfg1 = cfg3\<lparr>OS_CONFIG_MAX_TASKS := 1\<rparr>"

definition zero_ram :: "u32 \<Rightarrow> u32" where
  "zero_ram a = 0"

definition junk_ram :: "u32 \<Rightarrow> u32" where
  "junk_ram a = 0xDEADBEEF"

definition s_init :: kernel where
  "s_init = snd (os_init cfg3 (boot cfg3 zero_ram))"

definition s_init1 :: kernel where
  "s_init1 = snd (os_init cfg1 (boot cfg1 zero_ram))"

definition four_tasks :: "(u32 \<times> u32 \<times> u32 \<times> u32) list" where
  "four_tasks =
     [(0x08000301, 0x20000400, 0x20001000, 64), (0x08000401, 0x20000404, 0x20001100, 64),
      (0x08000501, 0x20000408, 0x20001200, 64), (0x08000601, 0x2000040C, 0x20001300, 64)]"

definition s_junk :: kernel where
  "s_junk = snd (os_init cfg3 (boot cfg3 junk_ram))"

definition s_task1 :: kernel where
  "s_task1 = snd (os_task_init cfg3 0x08000301 0x20000400 0x20001000 64 s_init)"

text \<open>
  Runs from program start: two user tasks are registered and the system is started; the
  first task then delays itself, and a tick wakes it up again.
\<close>

definition task_a :: event where
  "task_a = TaskInit 0x08000301 0x20000400 0x20001000 64"

definition task_b :: event where
  "task_b = TaskInit 0x08000401 0x20000404 0x20001100 64"

definition after_run :: "event list \<Rightarrow> kernel" where
  "after_run es = the (run cfg3 es (boot cfg3 zero_ram))"

definition s_two :: kernel where
  "s_two = after_run [Init, task_a, task_b, Start 1000]"


definition s_started :: kernel where
  "s_started = after_run [Init, task_a, Start 1000]"


definition s_delay2 :: kernel where
  "s_delay2 = snd (the (os_delay 2 s_started))"

definition s_delay2_tick :: kernel where
  "s_delay2_tick = the (run cfg3 [Tick] s_delay2)"

definition s_zero :: kernel where
  "s_zero = after_run [Init, task_a, Start 1000, Delay 0]"

definition s_zero_tick :: kernel where
  "s_zero_tick = after_run [Init, task_a, Start 1000, Delay 0, Tick]"

definition s_zero_ticks :: kernel where
  "s_zero_ticks = after_run [Init, task_a, Start 1000, Delay 0, Tick, Tick, Tick]"

declare select_next.simps [code]

section \<open>Facts about the loops of the scheduler\<close>

lemma unat_plus1: "(c :: u32) < sz \<Longrightarrow> unat (c + 1) = Suc (unat c)"
proof -
  assume lt: "c < sz"
  have "c + 1 \<noteq> 0"
  proof
    assume "c + 1 = 0"
    then have "c = - 1" by (rule max_word_wrap)
    with lt show False by simp
  qed
  then have "1 + c \<noteq> 0" by (simp add: add.commute)
  then have "unat (1 + c) = Suc (unat c)" by (rule unatSuc)
  then show ?thesis by (simp add: add.commute)
qed

lemma unat_advance:
  "c < sz \<Longrightarrow> unat (advance sz c) = (if unat sz \<le> Suc (unat c) then 1 else Suc (unat c))"
  by (simp add: advance_def word_le_nat_alt unat_plus1)

lemma advance_range:
  assumes "c < sz" "2 \<le> unat sz"
  shows "1 \<le> unat (advance sz c) \<and> unat (advance sz c) < unat sz"
  using assms by (simp add: unat_advance)

lemma advance_less:
  assumes "c < sz" "2 \<le> unat sz"
  shows "advance sz c < sz"
  using advance_range [OF assms] by (simp add: word_less_nat_alt)

lemma idle_scan_spec:
  "unat sz \<le> length ts \<Longrightarrow>
   idle_scan ts sz i =
     Some (\<not> (\<exists>j. i \<le> j \<and> j < unat sz \<and> status (ts ! j) = OS_TASK_STATUS_IDLE))"
proof (induction ts sz i rule: idle_scan.induct)
  case (1 ts sz i)
  show ?case
  proof (cases "i < unat sz")
    case False
    then show ?thesis by (subst idle_scan.simps) auto
  next
    case True
    with 1 have len: "i < length ts" by simp
    show ?thesis
    proof (cases "status (ts ! i) = OS_TASK_STATUS_IDLE")
      case True
      with \<open>i < unat sz\<close> len show ?thesis by (subst idle_scan.simps) auto
    next
      case False
      have "idle_scan ts sz i = idle_scan ts sz (Suc i)"
        using False \<open>i < unat sz\<close> len by (subst idle_scan.simps) simp
      also have "\<dots> = Some (\<not> (\<exists>j. Suc i \<le> j \<and> j < unat sz \<and> status (ts ! j) = OS_TASK_STATUS_IDLE))"
        using 1 \<open>i < unat sz\<close> len False by simp
      also have "(\<exists>j. Suc i \<le> j \<and> j < unat sz \<and> status (ts ! j) = OS_TASK_STATUS_IDLE)
               = (\<exists>j. i \<le> j \<and> j < unat sz \<and> status (ts ! j) = OS_TASK_STATUS_IDLE)"
        using False by (metis Suc_leD Suc_leI le_neq_implies_less)
      finally show ?thesis .
    qed
  qed
qed

lemma select_next_hit:
  "unat (advance sz c) < length ts \<Longrightarrow> status (ts ! unat (advance sz c)) = OS_TASK_STATUS_IDLE
   \<Longrightarrow> select_next ts sz c = Some (advance sz c)"
  by (subst select_next.simps) simp

lemma select_next_skip:
  "unat (advance sz c) < length ts \<Longrightarrow> status (ts ! unat (advance sz c)) \<noteq> OS_TASK_STATUS_IDLE
   \<Longrightarrow> select_next ts sz c = select_next ts sz (advance sz c)"
  by (subst select_next.simps) simp

text \<open>
  The loop leaves after exactly \<open>n\<close> passes when the \<open>n\<close>-th slot it moves to is the
  first one that is idle.
\<close>

lemma select_next_iterate:
  assumes "0 < n"
      and "\<forall>m. 0 < m \<and> m \<le> n \<longrightarrow> unat ((advance sz ^^ m) c) < length ts"
      and "\<forall>m. 0 < m \<and> m < n \<longrightarrow> status (ts ! unat ((advance sz ^^ m) c)) \<noteq> OS_TASK_STATUS_IDLE"
      and "status (ts ! unat ((advance sz ^^ n) c)) = OS_TASK_STATUS_IDLE"
  shows "select_next ts sz c = Some ((advance sz ^^ n) c)"
  using assms
proof (induction n arbitrary: c)
  case 0
  then show ?case by simp
next
  case (Suc n)
  show ?case
  proof (cases "n = 0")
    case True
    have "unat (advance sz c) < length ts"
      using Suc.prems(2) [rule_format, of 1] by simp
    with True Suc.prems(4) show ?thesis
      by (simp add: select_next_hit)
  next
    case False
    have b1: "unat (advance sz c) < length ts"
      using Suc.prems(2) [rule_format, of 1] by simp
    have n1: "status (ts ! unat (advance sz c)) \<noteq> OS_TASK_STATUS_IDLE"
      using Suc.prems(3) [rule_format, of 1] False by simp
    have "select_next ts sz (advance sz c) = Some ((advance sz ^^ n) (advance sz c))"
    proof (rule Suc.IH)
      show "0 < n" using False by simp
      show "\<forall>m. 0 < m \<and> m \<le> n \<longrightarrow> unat ((advance sz ^^ m) (advance sz c)) < length ts"
        using Suc.prems(2) by (metis Suc_le_mono funpow_Suc_right o_apply zero_less_Suc)
      show "\<forall>m. 0 < m \<and> m < n \<longrightarrow> status (ts ! unat ((advance sz ^^ m) (advance sz c))) \<noteq> OS_TASK_STATUS_IDLE"
        using Suc.prems(3) by (metis Suc_less_eq funpow_Suc_right o_apply zero_less_Suc)
      show "status (ts ! unat ((advance sz ^^ n) (advance sz c))) = OS_TASK_STATUS_IDLE"
        using Suc.prems(4) by (simp add: funpow_swap1)
    qed
    then show ?thesis
      using b1 n1 by (simp add: select_next_skip funpow_swap1)
  qed
qed

text \<open>
  Where the scan stands after \<open>j\<close> passes.
\<close>

lemma unat_advance_funpow:
  assumes "c < sz" "2 \<le> unat sz" "0 < j"
  shows "unat ((advance sz ^^ j) c) = Suc ((unat c + j - 1) mod (unat sz - 1))
       \<and> (advance sz ^^ j) c < sz"
  using assms(3)
proof (induction j)
  case 0
  then show ?case by simp
next
  case (Suc j)
  show ?case
  proof (cases "j = 0")
    case True
    have "unat (advance sz c) = Suc (unat c mod (unat sz - 1))"
    proof (cases "unat sz \<le> Suc (unat c)")
      case True
      with assms have "unat c = unat sz - 1" by (simp add: word_less_nat_alt)
      with True assms show ?thesis by (simp add: unat_advance)
    next
      case False
      then have "unat c < unat sz - 1" by simp
      with False assms show ?thesis by (simp add: unat_advance)
    qed
    with True assms show ?thesis by (simp add: advance_less)
  next
    case False
    then have IH: "unat ((advance sz ^^ j) c) = Suc ((unat c + j - 1) mod (unat sz - 1))"
      and lt: "(advance sz ^^ j) c < sz"
      using Suc.IH by simp_all
    let ?d = "(advance sz ^^ j) c"
    let ?N = "unat sz - 1"
    have Npos: "0 < ?N" using assms by simp
    have "unat (advance sz ?d) = Suc ((unat c + Suc j - 1) mod ?N)"
    proof (cases "unat sz \<le> Suc (unat ?d)")
      case True
      then have "Suc ((unat c + j - 1) mod ?N) = ?N"
        using IH lt by (simp add: word_less_nat_alt)
      then have "(unat c + j - 1 + 1) mod ?N = 0"
        by (metis Suc_eq_plus1 mod_Suc mod_self)
      moreover have "unat c + j - 1 + 1 = unat c + Suc j - 1" using False by simp
      ultimately show ?thesis using True lt by (simp add: unat_advance)
    next
      case False
      then have "Suc ((unat c + j - 1) mod ?N) < ?N" using IH by simp
      then have "(unat c + j - 1 + 1) mod ?N = Suc ((unat c + j - 1) mod ?N)"
        by (metis Suc_eq_plus1 mod_Suc nat_neq_iff)
      moreover have "unat c + j - 1 + 1 = unat c + Suc j - 1" using \<open>j \<noteq> 0\<close> by simp
      ultimately show ?thesis using False lt IH by (simp add: unat_advance)
    qed
    then show ?thesis using lt assms by (simp add: advance_less)
  qed
qed

text \<open>
  The round-robin order is a rotation of the user slots.
\<close>

lemma rr_order_in: "c < n \<Longrightarrow> rr_order c n = [Suc c..<n] @ [1..<Suc c]"
  by (simp add: rr_order_def min_def)

lemma rr_order_rotate: "c < n \<Longrightarrow> rr_order c n = rotate c [1..<n]"
proof -
  assume "c < n"
  show ?thesis
  proof (cases "c = n - 1")
    case True
    consider "n = 1" | "1 < n" using \<open>c < n\<close> by linarith
    then have "rotate c [1..<n] = [1..<n]"
    proof cases
      case 1
      then show ?thesis by simp
    next
      case 2
      have "rotate c [1..<n] = rotate (c mod length [1..<n]) [1..<n]"
        by (rule rotate_conv_mod)
      also have "c mod length [1..<n] = 0" using True 2 by simp
      finally show ?thesis by simp
    qed
    with True \<open>c < n\<close> show ?thesis by (simp add: rr_order_in)
  next
    case False
    with \<open>c < n\<close> have "c < n - 1" by simp
    then have "rotate c [1..<n] = drop c [1..<n] @ take c [1..<n]"
      by (simp add: rotate_drop_take)
    moreover have "c < n" using \<open>c < n - 1\<close> by simp
    ultimately show ?thesis using \<open>c < n - 1\<close> by (simp add: rr_order_in take_upt)
  qed
qed

lemma rr_order_length: "c < n \<Longrightarrow> length (rr_order c n) = n - 1"
  by (auto simp: rr_order_def min_def)

lemma rr_order_nth:
  assumes "c < n" "j < n - 1"
  shows "rr_order c n ! j = Suc ((c + j) mod (n - 1))"
proof -
  have "(c + j) mod (n - 1) < n - 1" using assms by simp
  then have "[1..<n] ! ((c + j) mod (n - 1)) = Suc ((c + j) mod (n - 1))" by simp
  with assms show ?thesis by (simp add: rr_order_rotate nth_rotate)
qed

lemma rr_order_set: "set (rr_order c n) = {i. 1 \<le> i \<and> i < n}"
  by (auto simp: rr_order_def)



lemma advance_funpow_rr:
  assumes "c < sz" "2 \<le> unat sz" "0 < j" "j \<le> unat sz - 1"
  shows "unat ((advance sz ^^ j) c) = rr_order (unat c) (unat sz) ! (j - 1)"
proof -
  have "unat c < unat sz" using assms by (simp add: word_less_nat_alt)
  moreover have "j - 1 < unat sz - 1" using assms by simp
  ultimately have "rr_order (unat c) (unat sz) ! (j - 1) = Suc ((unat c + (j - 1)) mod (unat sz - 1))"
    by (rule rr_order_nth)
  moreover have "unat c + (j - 1) = unat c + j - 1" using assms by simp
  ultimately show ?thesis using unat_advance_funpow [OF assms(1-3)] by simp
qed

lemma select_next_Some_aux:
  assumes h: "select_next ts sz c = Some n"
  shows "c < sz \<longrightarrow> 2 \<le> unat sz \<longrightarrow>
   n < sz \<and> 1 \<le> unat n \<and> unat n < length ts \<and> status (ts ! unat n) = OS_TASK_STATUS_IDLE"
proof (rule select_next.raw_induct [where P = "\<lambda>ts sz c n. c < sz \<longrightarrow> 2 \<le> unat sz \<longrightarrow>
   n < sz \<and> 1 \<le> unat n \<and> unat n < length ts \<and> status (ts ! unat n) = OS_TASK_STATUS_IDLE", OF _ h])
  fix f :: "os_task_t list \<Rightarrow> u32 \<Rightarrow> u32 \<Rightarrow> u32 option" and ts sz c n
  assume IH: "\<And>ts sz c n. f ts sz c = Some n \<Longrightarrow> c < sz \<longrightarrow> 2 \<le> unat sz \<longrightarrow>
       n < sz \<and> 1 \<le> unat n \<and> unat n < length ts \<and> status (ts ! unat n) = OS_TASK_STATUS_IDLE"
    and eq: "(if unat (advance sz c) < length ts
          then if status (ts ! unat (advance sz c)) \<noteq> OS_TASK_STATUS_IDLE
               then f ts sz (advance sz c)
               else Some (advance sz c)
          else None) = Some n"
  show "c < sz \<longrightarrow> 2 \<le> unat sz \<longrightarrow>
       n < sz \<and> 1 \<le> unat n \<and> unat n < length ts \<and> status (ts ! unat n) = OS_TASK_STATUS_IDLE"
  proof (intro impI)
    assume c: "c < sz" and sz: "2 \<le> unat sz"
    have a: "advance sz c < sz" using c sz by (rule advance_less)
    have r: "1 \<le> unat (advance sz c)" using advance_range [OF c sz] by simp
    have b: "unat (advance sz c) < length ts" using eq by (simp split: if_splits)
    show "n < sz \<and> 1 \<le> unat n \<and> unat n < length ts \<and> status (ts ! unat n) = OS_TASK_STATUS_IDLE"
    proof (cases "status (ts ! unat (advance sz c)) = OS_TASK_STATUS_IDLE")
      case True
      with eq b have "n = advance sz c" by simp
      with True a r b show ?thesis by simp
    next
      case False
      with eq b have "f ts sz (advance sz c) = Some n" by simp
      from IH [OF this] a sz show ?thesis by simp
    qed
  qed
qed

lemma select_next_Some:
  "select_next ts sz c = Some n \<Longrightarrow> c < sz \<Longrightarrow> 2 \<le> unat sz \<Longrightarrow>
   n < sz \<and> 1 \<le> unat n \<and> unat n < length ts \<and> status (ts ! unat n) = OS_TASK_STATUS_IDLE"
  using select_next_Some_aux by blast

section \<open>The context builder\<close>

lemma unat_of_nat_le: "unat (of_nat n :: u32) \<le> n"
  by (simp add: unat_of_nat)

text \<open>
  C2. After a successful \<^verbatim>\<open>os_task_init\<close> on a stack at address \<open>p_stack\<close> of
  \<open>stack_size\<close> words, the stack pointer stored in the new task's control block is the
  address of word \<open>stack_size - 16\<close> of the stack, word \<open>stack_size - 1\<close> holds the
  default xPSR \<open>0x01000000\<close>, word \<open>stack_size - 2\<close> the handler's address, word
  \<open>stack_size - 3\<close> the address of \<^verbatim>\<open>task_finished\<close> and word \<open>stack_size - 8\<close> the
  parameter. The new control block is the one at the old value of \<open>size'\<close>. This holds
  with and without \<^verbatim>\<open>OS_CONFIG_DEBUG\<close>.
\<close>

theorem C2_initial_context:
  assumes "os_task_init cfg hdl p_task_params p_stack stack_size s = (OS_ERROR_OK, s')"
      and "length (tasks s) = OS_TASKS_COUNT cfg"
  shows "sp (tasks s' ! unat (size' s)) = stack_slot p_stack (stack_size - 16)
       \<and> ram s' (stack_slot p_stack (stack_size - 1)) = 0x01000000
       \<and> ram s' (stack_slot p_stack (stack_size - 2)) = hdl
       \<and> ram s' (stack_slot p_stack (stack_size - 3)) = task_finished cfg
       \<and> ram s' (stack_slot p_stack (stack_size - 8)) = p_task_params"
proof -
  have lt: "unat (size' s) < length (tasks s)"
    using assms unat_of_nat_le[of "OS_TASKS_COUNT cfg - 1"]
    by (auto simp: os_task_init_def OS_TASKS_COUNT_def word_less_nat_alt not_le split: if_splits)
  show ?thesis using assms(1) lt
    by (auto simp: os_task_init_def Let_def init_frame_def debug_fill_def stack_slot_def split: if_splits)
qed

theorem C2_initial_context_witness:
  "os_task_init cfg3 0x08000301 0x20000400 0x20001000 64 s_init = (OS_ERROR_OK, s_task1)
   \<and> length (tasks s_init) = OS_TASKS_COUNT cfg3
   \<and> sp (tasks s_task1 ! 1) = 0x200010C0
   \<and> ram s_task1 0x200010FC = 0x01000000
   \<and> ram s_task1 0x200010F8 = 0x08000301
   \<and> ram s_task1 0x200010F4 = 0x08000101
   \<and> ram s_task1 0x200010E0 = 0x20000400"
proof -
  have ok: "fst (os_task_init cfg3 0x08000301 0x20000400 0x20001000 64 s_init) = OS_ERROR_OK"
    unfolding s_init_def by code_simp
  have h1: "os_task_init cfg3 0x08000301 0x20000400 0x20001000 64 s_init = (OS_ERROR_OK, s_task1)"
    using ok by (simp add: s_task1_def prod_eq_iff)
  have h2: "length (tasks s_init) = OS_TASKS_COUNT cfg3"
    unfolding s_init_def by code_simp
  have sz: "unat (size' s_init) = 1"
    unfolding s_init_def by code_simp
  have tf: "task_finished cfg3 = 0x08000101"
    by (simp add: cfg3_def)
  from C2_initial_context [OF h1 h2] h1 h2 show ?thesis
    by (simp add: sz tf stack_slot_def)
qed

text \<open>
  C9, as the spec states it, fails: without \<^verbatim>\<open>OS_CONFIG_DEBUG\<close> the function writes
  four words of the frame and no other. On a stack that holds \<open>0xDEADBEEF\<close> everywhere,
  the slot of R12 (word \<open>stack_size - 4\<close>) still holds it after a successful call.
\<close>

theorem C9_counterexample:
  "fst (os_task_init cfg3 0x08000301 0x20000400 0x20001000 64 s_junk) = OS_ERROR_OK
   \<and> OS_CONFIG_DEBUG cfg3 = False
   \<and> ram (snd (os_task_init cfg3 0x08000301 0x20000400 0x20001000 64 s_junk))
        (stack_slot 0x20001000 (64 - 4)) = 0xDEADBEEF"
  unfolding s_junk_def by code_simp

text \<open>
  C9, amended. Without \<^verbatim>\<open>OS_CONFIG_DEBUG\<close>, a successful \<^verbatim>\<open>os_task_init\<close> leaves the
  twelve other register slots (words \<open>stack_size - 4\<close> to \<open>stack_size - 7\<close> and
  \<open>stack_size - 9\<close> to \<open>stack_size - 16\<close>) as they were before the call; they are zero
  exactly when the caller's stack was zero there.
\<close>

theorem C9_untouched_registers:
  assumes "os_task_init cfg hdl p_task_params p_stack stack_size s = (OS_ERROR_OK, s')"
      and "\<not> OS_CONFIG_DEBUG cfg"
  shows "\<forall>k \<in> set [4, 5, 6, 7, 9, 10, 11, 12, 13, 14, 15, 16].
           ram s' (stack_slot p_stack (stack_size - k)) = ram s (stack_slot p_stack (stack_size - k))"
  using assms
  by (auto simp: os_task_init_def Let_def init_frame_def stack_slot_def split: if_splits)

theorem C9_untouched_registers_witness:
  "os_task_init cfg3 0x08000301 0x20000400 0x20001000 64 s_junk
     = (OS_ERROR_OK, snd (os_task_init cfg3 0x08000301 0x20000400 0x20001000 64 s_junk))
   \<and> OS_CONFIG_DEBUG cfg3 = False
   \<and> ram (snd (os_task_init cfg3 0x08000301 0x20000400 0x20001000 64 s_junk)) 0x200010F0
       = ram s_junk 0x200010F0
   \<and> ram (snd (os_task_init cfg3 0x08000301 0x20000400 0x20001000 64 s_junk)) 0x200010C0
       = ram s_junk 0x200010C0"
proof -
  have ok: "fst (os_task_init cfg3 0x08000301 0x20000400 0x20001000 64 s_junk) = OS_ERROR_OK"
    unfolding s_junk_def by code_simp
  have h1: "os_task_init cfg3 0x08000301 0x20000400 0x20001000 64 s_junk
     = (OS_ERROR_OK, snd (os_task_init cfg3 0x08000301 0x20000400 0x20001000 64 s_junk))"
    using ok by (simp add: prod_eq_iff)
  have h2: "\<not> OS_CONFIG_DEBUG cfg3"
    by (simp add: cfg3_def)
  from C9_untouched_registers [OF h1 h2] h1 h2 show ?thesis
    by (simp add: stack_slot_def)
qed

section \<open>The invariant of the kernel\<close>

lemma kernel_inv_size: "kernel_inv cfg s \<Longrightarrow> unat (size' s) < length (tasks s)"
proof -
  assume inv: "kernel_inv cfg s"
  then have "unat (size' s) \<le> unat (of_nat (OS_TASKS_COUNT cfg - 1) :: u32)"
    unfolding kernel_inv_def word_le_nat_alt by blast
  also have "\<dots> \<le> OS_TASKS_COUNT cfg - 1" by (rule unat_of_nat_le)
  also have "\<dots> < length (tasks s)" using inv by (simp add: kernel_inv_def OS_TASKS_COUNT_def)
  finally show ?thesis .
qed

lemma kernel_inv_current: "kernel_inv cfg s \<Longrightarrow> 2 \<le> unat (size' s) \<Longrightarrow> current_task s < size' s"
  by (auto simp: kernel_inv_def word_less_nat_alt word_le_nat_alt)

lemma boot_inv: "kernel_inv cfg (boot cfg ram0)"
  by (simp add: kernel_inv_def boot_def OS_TASKS_COUNT_def zero_task_def)

lemma os_task_init_inv:
  assumes inv: "kernel_inv cfg s"
  shows "kernel_inv cfg (snd (os_task_init cfg h p st n s))"
proof (cases "fst (os_task_init cfg h p st n s) = OS_ERROR_OK")
  case False
  then have "snd (os_task_init cfg h p st n s) = s"
    by (auto simp: os_task_init_def Let_def split: if_splits)
  with inv show ?thesis by simp
next
  case True
  then have lt: "size' s < of_nat (OS_TASKS_COUNT cfg - 1)"
    by (auto simp: os_task_init_def Let_def not_le split: if_splits)
  have s1: "unat (size' s + 1) = Suc (unat (size' s))" using lt by (rule unat_plus1)
  have le: "size' s + 1 \<le> of_nat (OS_TASKS_COUNT cfg - 1)"
    using lt s1 by (simp add: word_le_nat_alt word_less_nat_alt)
  have len: "unat (size' s) < length (tasks s)" using inv by (rule kernel_inv_size)
  let ?s' = "snd (os_task_init cfg h p st n s)"
  have t: "tasks ?s' = (tasks s)[unat (size' s) := (tasks s ! unat (size' s))
               \<lparr>handler := h, p_params := p, sp := stack_slot st (n - 16), status := OS_TASK_STATUS_IDLE\<rparr>]"
    and c: "current_task ?s' = current_task s" and z: "size' ?s' = size' s + 1"
    using True by (auto simp: os_task_init_def Let_def split: if_splits)
  have lt_mono: "\<And>x. x < size' s \<Longrightarrow> x < size' s + 1"
    using s1 by (simp add: word_less_nat_alt)
  show ?thesis
    unfolding kernel_inv_def t c z
    using inv le len lt_mono
    by (auto simp: kernel_inv_def nth_list_update)
qed

lemma os_init_inv:
  assumes inv: "kernel_inv cfg s"
  shows "kernel_inv cfg (snd (os_init cfg s))"
proof (cases "m_state s \<noteq> OS_STATE_DEFAULT")
  case True
  with inv show ?thesis by (simp add: os_init_def)
next
  case False
  let ?s2 = "s\<lparr>tasks := replicate (OS_TASKS_COUNT cfg) zero_task, current_task := 0, size' := 0,
               m_state := OS_STATE_INITIALIZED\<rparr>"
  let ?r = "os_idle_task_init cfg ?s2"
  have inv2: "kernel_inv cfg ?s2"
    by (simp add: kernel_inv_def OS_TASKS_COUNT_def zero_task_def)
  have inv3: "kernel_inv cfg (snd ?r)"
    unfolding os_idle_task_init_def using inv2 by (rule os_task_init_inv)
  show ?thesis
  proof (cases "fst ?r = OS_ERROR_OK")
    case ok: False
    with False have e: "snd (os_init cfg s) = (snd ?r)\<lparr>m_state := OS_STATE_DEFAULT\<rparr>"
      by (simp add: os_init_def Let_def)
    have "kernel_inv cfg ((snd ?r)\<lparr>m_state := OS_STATE_DEFAULT\<rparr>) = kernel_inv cfg (snd ?r)"
      unfolding kernel_inv_def by simp
    with inv3 show ?thesis unfolding e by blast
  next
    case ok: True
    with False have e: "snd (os_init cfg s) = (snd ?r)\<lparr>current_task := 1\<rparr>"
      by (simp add: os_init_def Let_def)
    from ok have lt: "(0::u32) < of_nat (OS_TASKS_COUNT cfg - 1)"
      by (auto simp: os_idle_task_init_def os_task_init_def Let_def not_le word_gt_0 split: if_splits)
    then have "0 < unat (of_nat (OS_TASKS_COUNT cfg - 1) :: u32)"
      by (simp add: word_less_nat_alt)
    then have "0 < OS_TASKS_COUNT cfg - 1"
      using unat_of_nat_le [of "OS_TASKS_COUNT cfg - 1"] by linarith
    then have two: "1 < OS_TASKS_COUNT cfg" by simp
    from ok have st: "\<forall>i < OS_TASKS_COUNT cfg. status (tasks (snd ?r) ! i) \<noteq> OS_TASK_STATUS_ACTIVE"
      by (auto simp: os_idle_task_init_def os_task_init_def Let_def nth_list_update zero_task_def
          split: if_splits)
    define r where "r = snd ?r"
    have a: "length (tasks r) = OS_TASKS_COUNT cfg"
      and b: "size' r \<le> of_nat (OS_TASKS_COUNT cfg - 1)"
      using inv3 unfolding r_def kernel_inv_def by blast+
    have c: "\<forall>i < OS_TASKS_COUNT cfg. status (tasks r ! i) \<noteq> OS_TASK_STATUS_ACTIVE"
      using st by (simp add: r_def)
    have "kernel_inv cfg (r\<lparr>current_task := 1\<rparr>)"
      unfolding kernel_inv_def using a b c two by auto
    then show ?thesis
      unfolding e r_def .
  qed
qed

section \<open>The scan over a table with an idle user task\<close>


text \<open>
  When the scan starts with a non-empty queue of ready slots, it stops at the head of
  the queue.
\<close>

lemma select_next_head:
  assumes c: "c < sz" and sz: "2 \<le> unat sz" and len: "unat sz \<le> length ts"
      and f: "filter (\<lambda>i. status (ts ! i) = OS_TASK_STATUS_IDLE) (rr_order (unat c) (unat sz)) = x # xs"
  shows "\<exists>n. select_next ts sz c = Some n \<and> unat n = x \<and> n < sz"
proof -
  let ?L = "rr_order (unat c) (unat sz)"
  let ?I = "\<lambda>i. status (ts ! i) = OS_TASK_STATUS_IDLE"
  have cl: "unat c < unat sz" using c by (simp add: word_less_nat_alt)
  from f obtain us vs where L: "?L = us @ x # vs" and us: "\<forall>u\<in>set us. \<not> ?I u" and x: "?I x"
    by (auto simp: filter_eq_Cons_iff)
  let ?p = "length us"
  have p: "?p < unat sz - 1"
    using L rr_order_length [OF cl] by (metis length_append length_Cons less_add_Suc1 add_Suc_right)
  have at: "\<And>m. 0 < m \<Longrightarrow> m \<le> Suc ?p \<Longrightarrow> unat ((advance sz ^^ m) c) = ?L ! (m - 1)"
    using c sz p by (intro advance_funpow_rr) simp_all
  have bound: "\<forall>m. 0 < m \<and> m \<le> Suc ?p \<longrightarrow> unat ((advance sz ^^ m) c) < length ts"
  proof (intro allI impI)
    fix m assume "0 < m \<and> m \<le> Suc ?p"
    then have "(advance sz ^^ m) c < sz" using unat_advance_funpow [OF c sz, of m] by simp
    then show "unat ((advance sz ^^ m) c) < length ts" using len by (simp add: word_less_nat_alt)
  qed
  have skip: "\<forall>m. 0 < m \<and> m < Suc ?p \<longrightarrow> status (ts ! unat ((advance sz ^^ m) c)) \<noteq> OS_TASK_STATUS_IDLE"
  proof (intro allI impI)
    fix m assume m: "0 < m \<and> m < Suc ?p"
    then have m1: "m - 1 < length us" by arith
    from m have "unat ((advance sz ^^ m) c) = ?L ! (m - 1)" using at by simp
    also have "\<dots> = us ! (m - 1)" using m1 L by (simp add: nth_append)
    also have "\<dots> \<in> set us" using m1 by (rule nth_mem)
    finally show "status (ts ! unat ((advance sz ^^ m) c)) \<noteq> OS_TASK_STATUS_IDLE"
      using us by blast
  qed
  have hit: "unat ((advance sz ^^ Suc ?p) c) = x"
    using at [of "Suc ?p"] L by simp
  have "select_next ts sz c = Some ((advance sz ^^ Suc ?p) c)"
    using bound skip hit x by (intro select_next_iterate) simp_all
  moreover have "(advance sz ^^ Suc ?p) c < sz"
    using unat_advance_funpow [OF c sz, of "Suc ?p"] by simp
  ultimately show ?thesis using hit by blast
qed

section \<open>The scheduler on a state that satisfies the invariant\<close>

lemma length_set_status [simp]: "length (set_status st i ts) = length ts"
  by (simp add: set_status_def)

lemma nth_set_status:
  "j < length ts \<Longrightarrow> set_status st i ts ! j = (if j = i then (ts ! j)\<lparr>status := st\<rparr> else ts ! j)"
  by (simp add: set_status_def nth_list_update)

lemma length_after_check [simp]: "length (after_check s) = length (tasks s)"
  by (simp add: after_check_def)

lemma after_check_idle:
  assumes "kernel_inv cfg s" "1 \<le> i" "i < length (tasks s)"
  shows "(status (after_check s ! i) = OS_TASK_STATUS_IDLE) = user_ready s i"
  using assms
  by (auto simp: after_check_def user_ready_def nth_set_status kernel_inv_def)

lemma after_check_no_active:
  assumes "kernel_inv cfg s" "1 \<le> i" "i < length (tasks s)"
  shows "status (after_check s ! i) \<noteq> OS_TASK_STATUS_ACTIVE"
  using assms
  by (auto simp: after_check_def nth_set_status kernel_inv_def)

lemma after_check_other:
  assumes "i < length (tasks s)" "status (tasks s ! i) \<noteq> OS_TASK_STATUS_ACTIVE"
  shows "after_check s ! i = tasks s ! i"
  using assms by (auto simp: after_check_def nth_set_status)

lemma after_check_zero:
  assumes "0 < length (tasks s)"
  shows "after_check s ! 0 = tasks s ! 0"
  using assms by (auto simp: after_check_def nth_set_status unat_eq_0)

lemma ready_queue_empty:
  "ready_queue s = [] \<longleftrightarrow> \<not> (\<exists>j. 1 \<le> j \<and> j < unat (size' s) \<and> user_ready s j)"
  by (auto simp: ready_queue_def filter_empty_conv rr_order_set)

lemma check_ready_inv:
  assumes inv: "kernel_inv cfg s"
  shows "check_ready s = Some (ready_queue s = [], after_check s)"
proof -
  have len: "unat (size' s) \<le> length (tasks s)"
    using kernel_inv_size [OF inv] by simp
  have cur: "unat (current_task s) < length (tasks s)"
    using inv by (simp add: kernel_inv_def)
  show ?thesis
  proof (cases "current_task s \<noteq> 0 \<and> status (tasks s ! unat (current_task s)) = OS_TASK_STATUS_ACTIVE")
    case True
    then have "1 \<le> unat (current_task s)"
      by (metis One_nat_def Suc_leI unat_eq_0 not_gr_zero)
    moreover from True inv cur have "current_task s < size' s"
      using \<open>1 \<le> unat (current_task s)\<close> by (auto simp: kernel_inv_def)
    ultimately have "\<exists>j. 1 \<le> j \<and> j < unat (size' s) \<and> user_ready s j"
      using True by (auto simp: user_ready_def word_less_nat_alt)
    then have "ready_queue s \<noteq> []" by (simp add: ready_queue_empty)
    with True cur show ?thesis by (simp add: check_ready_def after_check_def)
  next
    case False
    have "\<And>j. 1 \<le> j \<Longrightarrow> user_ready s j = (status (tasks s ! j) = OS_TASK_STATUS_IDLE)"
      using False by (auto simp: user_ready_def)
    then have "(ready_queue s = []) =
       (\<not> (\<exists>j. 1 \<le> j \<and> j < unat (size' s) \<and> status (tasks s ! j) = OS_TASK_STATUS_IDLE))"
      by (auto simp: ready_queue_empty)
    moreover have "idle_scan (tasks s) (size' s) 1 =
        Some (\<not> (\<exists>j. 1 \<le> j \<and> j < unat (size' s) \<and> status (tasks s ! j) = OS_TASK_STATUS_IDLE))"
      using len by (rule idle_scan_spec)
    ultimately show ?thesis using False cur
      by (auto simp: check_ready_def after_check_def)
  qed
qed

lemma ready_queue_range:
  "x \<in> set (ready_queue s) \<Longrightarrow> 1 \<le> x \<and> x < unat (size' s) \<and> user_ready s x"
  by (auto simp: ready_queue_def rr_order_set)

lemma ready_queue_nonempty:
  assumes inv: "kernel_inv cfg s" and q: "ready_queue s \<noteq> []"
  shows "2 \<le> unat (size' s) \<and> current_task s < size' s"
proof -
  from q obtain j where "1 \<le> j" "j < unat (size' s)" by (auto simp: ready_queue_empty)
  then have "2 \<le> unat (size' s)" by simp
  with inv show ?thesis by (simp add: kernel_inv_current)
qed

lemma after_check_no_ready:
  assumes inv: "kernel_inv cfg s" and q: "ready_queue s = []"
  shows "after_check s = tasks s"
proof -
  have "check_ready s = Some (True, after_check s)"
    using check_ready_inv [OF inv] q by simp
  then show ?thesis
    by (auto simp: check_ready_def after_check_def split: if_splits)
qed

lemma reschedule_no_ready:
  assumes inv: "kernel_inv cfg s" and q: "ready_queue s = []"
  shows "reschedule s =
     Some (s\<lparr>tasks := set_status OS_TASK_STATUS_ACTIVE 0 (tasks s),
             current_task := 0,
             os_curr_task := Some (current_task s),
             os_next_task := Some 0,
             hw := hw s @ [DISABLE_IRQ]
                     @ (if Some (current_task s) \<noteq> Some 0 then [PENDSVSET] else [])
                     @ [ENABLE_IRQ]\<rparr>)"
proof -
  have "0 < length (tasks s)" using inv by (simp add: kernel_inv_def)
  then show ?thesis
    using check_ready_inv [OF inv] q after_check_no_ready [OF inv q]
    by (simp add: reschedule_def pick_next_def)
qed

lemma reschedule_ready:
  assumes inv: "kernel_inv cfg s" and q: "ready_queue s = x # xs"
  shows "\<exists>n. unat n = x \<and> n < size' s \<and> reschedule s =
     Some (s\<lparr>tasks := set_status OS_TASK_STATUS_ACTIVE x (after_check s),
             current_task := n,
             os_curr_task := Some (current_task s),
             os_next_task := Some n,
             hw := hw s @ [DISABLE_IRQ]
                     @ (if Some (current_task s) \<noteq> Some n then [PENDSVSET] else [])
                     @ [ENABLE_IRQ]\<rparr>)"
proof -
  let ?L = "rr_order (unat (current_task s)) (unat (size' s))"
  have ne: "ready_queue s \<noteq> []" using q by simp
  have sz: "2 \<le> unat (size' s)" and c: "current_task s < size' s"
    using ready_queue_nonempty [OF inv ne] by simp_all
  have len: "unat (size' s) \<le> length (after_check s)"
    using kernel_inv_size [OF inv] by simp
  have "filter (\<lambda>i. status (after_check s ! i) = OS_TASK_STATUS_IDLE) ?L = filter (user_ready s) ?L"
  proof (rule filter_cong [OF refl])
    fix i assume "i \<in> set ?L"
    then have "1 \<le> i" "i < length (tasks s)"
      using kernel_inv_size [OF inv] by (auto simp: rr_order_set)
    then show "(status (after_check s ! i) = OS_TASK_STATUS_IDLE) = user_ready s i"
      using inv by (simp add: after_check_idle)
  qed
  then have "filter (\<lambda>i. status (after_check s ! i) = OS_TASK_STATUS_IDLE) ?L = x # xs"
    using q by (simp add: ready_queue_def)
  from select_next_head [OF c sz len this]
  obtain n where n: "select_next (after_check s) (size' s) (current_task s) = Some n"
    "unat n = x" "n < size' s" by blast
  have "reschedule s =
     Some (s\<lparr>tasks := set_status OS_TASK_STATUS_ACTIVE x (after_check s),
             current_task := n,
             os_curr_task := Some (current_task s),
             os_next_task := Some n,
             hw := hw s @ [DISABLE_IRQ]
                     @ (if Some (current_task s) \<noteq> Some n then [PENDSVSET] else [])
                     @ [ENABLE_IRQ]\<rparr>)"
    using check_ready_inv [OF inv] ne n by (simp add: reschedule_def pick_next_def)
  with n show ?thesis by blast
qed

lemma reschedule_defined:
  assumes inv: "kernel_inv cfg s"
  shows "\<exists>s'. reschedule s = Some s'"
proof (cases "ready_queue s")
  case Nil
  with reschedule_no_ready [OF inv] show ?thesis by blast
next
  case (Cons x xs)
  with reschedule_ready [OF inv] show ?thesis by blast
qed

lemma reschedule_frame:
  assumes "reschedule s = Some s'"
  shows "size' s' = size' s \<and> m_state s' = m_state s \<and> ram s' = ram s"
  using assms by (auto simp: reschedule_def split: option.splits prod.splits)

lemma reschedule_length:
  assumes inv: "kernel_inv cfg s" and r: "reschedule s = Some s'"
  shows "length (tasks s') = length (tasks s)"
proof (cases "ready_queue s")
  case Nil
  with reschedule_no_ready [OF inv] r show ?thesis by auto
next
  case (Cons x xs)
  with reschedule_ready [OF inv] r show ?thesis by auto
qed

lemma reschedule_inv:
  assumes inv: "kernel_inv cfg s" and r: "reschedule s = Some s'"
  shows "kernel_inv cfg s'"
proof (cases "ready_queue s")
  case Nil
  have na: "\<And>i. 1 \<le> i \<Longrightarrow> i < length (tasks s) \<Longrightarrow> status (tasks s ! i) \<noteq> OS_TASK_STATUS_ACTIVE"
    using after_check_no_active [OF inv] after_check_no_ready [OF inv Nil] by simp
  from reschedule_no_ready [OF inv Nil] r
  have s': "s' = s\<lparr>tasks := set_status OS_TASK_STATUS_ACTIVE 0 (tasks s),
             current_task := 0,
             os_curr_task := Some (current_task s),
             os_next_task := Some 0,
             hw := hw s @ [DISABLE_IRQ]
                     @ (if Some (current_task s) \<noteq> Some 0 then [PENDSVSET] else [])
                     @ [ENABLE_IRQ]\<rparr>" by simp
  show ?thesis
    unfolding s' kernel_inv_def using inv na
    by (auto simp: kernel_inv_def nth_set_status)
next
  case (Cons x xs)
  from reschedule_ready [OF inv Cons] r obtain n where n: "unat n = x" "n < size' s"
    and s': "s' = s\<lparr>tasks := set_status OS_TASK_STATUS_ACTIVE x (after_check s),
             current_task := n,
             os_curr_task := Some (current_task s),
             os_next_task := Some n,
             hw := hw s @ [DISABLE_IRQ]
                     @ (if Some (current_task s) \<noteq> Some n then [PENDSVSET] else [])
                     @ [ENABLE_IRQ]\<rparr>" by auto
  have xl: "x < length (tasks s)"
    using n kernel_inv_size [OF inv] by (simp add: word_less_nat_alt)
  show ?thesis
    unfolding s' kernel_inv_def using inv n xl after_check_no_active [OF inv]
    by (auto simp: kernel_inv_def nth_set_status split: if_splits)
qed


text \<open>
  The scheduler leaves a user task alone that is neither active nor idle, and does not
  select it.
\<close>

lemma reschedule_blocked:
  assumes inv: "kernel_inv cfg s" and r: "reschedule s = Some s'"
      and i: "1 \<le> i" "i < length (tasks s)"
      and st: "status (tasks s ! i) \<noteq> OS_TASK_STATUS_ACTIVE" "status (tasks s ! i) \<noteq> OS_TASK_STATUS_IDLE"
  shows "tasks s' ! i = tasks s ! i \<and> unat (current_task s') \<noteq> i"
proof (cases "ready_queue s")
  case Nil
  with reschedule_no_ready [OF inv Nil] r i show ?thesis by (auto simp: nth_set_status)
next
  case (Cons x xs)
  from reschedule_ready [OF inv Cons] r obtain n where n: "unat n = x" "n < size' s"
    and s': "s' = s\<lparr>tasks := set_status OS_TASK_STATUS_ACTIVE x (after_check s),
             current_task := n,
             os_curr_task := Some (current_task s),
             os_next_task := Some n,
             hw := hw s @ [DISABLE_IRQ]
                     @ (if Some (current_task s) \<noteq> Some n then [PENDSVSET] else [])
                     @ [ENABLE_IRQ]\<rparr>" by auto
  have "x \<in> set (ready_queue s)" using Cons by simp
  then have "user_ready s x" by (simp add: ready_queue_range)
  with st have "x \<noteq> i" by (auto simp: user_ready_def)
  moreover have "after_check s ! i = tasks s ! i" using i st by (simp add: after_check_other)
  ultimately show ?thesis unfolding s' using n i by (simp add: nth_set_status)
qed

section \<open>Every run keeps the invariant\<close>

lemma tick_loop_spec:
  "unat sz \<le> length ts \<Longrightarrow>
   \<exists>ts'. tick_loop sz i ts = Some ts' \<and> length ts' = length ts
     \<and> (\<forall>j<length ts. ts' ! j = (if i \<le> j \<and> j < unat sz then tick_task (ts ! j) else ts ! j))"
proof (induction sz i ts rule: tick_loop.induct)
  case (1 sz i ts)
  show ?case
  proof (cases "i < unat sz")
    case False
    then have "tick_loop sz i ts = Some ts" by (subst tick_loop.simps) simp
    with False show ?thesis by auto
  next
    case True
    with "1.prems" have len: "i < length ts" by simp
    let ?ts1 = "ts[i := tick_task (ts ! i)]"
    have "unat sz \<le> length ?ts1" using "1.prems" by simp
    from "1.IH" [OF True len this]
    obtain ts' where r: "tick_loop sz (Suc i) ?ts1 = Some ts'" and l: "length ts' = length ts"
      and n: "\<forall>j<length ts. ts' ! j = (if Suc i \<le> j \<and> j < unat sz then tick_task (?ts1 ! j) else ?ts1 ! j)"
      by auto
    have "tick_loop sz i ts = Some ts'"
      using True len r by (subst tick_loop.simps) simp
    moreover have "\<forall>j<length ts. ts' ! j = (if i \<le> j \<and> j < unat sz then tick_task (ts ! j) else ts ! j)"
      using n True len by (auto simp: nth_list_update)
    ultimately show ?thesis using l by blast
  qed
qed

lemma tick_task_active [simp]:
  "(status (tick_task t) = OS_TASK_STATUS_ACTIVE) = (status t = OS_TASK_STATUS_ACTIVE)"
  by (simp add: tick_task_def)

lemma tick_loop_inv:
  assumes inv: "kernel_inv cfg s" and t: "tick_loop (size' s) 1 (tasks s) = Some ts"
  shows "kernel_inv cfg (s\<lparr>tasks := ts\<rparr>)"
proof -
  have "unat (size' s) \<le> length (tasks s)" using kernel_inv_size [OF inv] by simp
  from tick_loop_spec [OF this, of 1] t
  have l: "length ts = length (tasks s)"
    and n: "\<forall>j<length (tasks s). ts ! j = (if 1 \<le> j \<and> j < unat (size' s) then tick_task (tasks s ! j) else tasks s ! j)"
    by auto
  show ?thesis
    unfolding kernel_inv_def using inv l n by (auto simp: kernel_inv_def split: if_splits)
qed

lemma SysTick_Handler_defined:
  assumes inv: "kernel_inv cfg s"
  shows "\<exists>s'. SysTick_Handler s = Some s'"
proof -
  have "unat (size' s) \<le> length (tasks s)" using kernel_inv_size [OF inv] by simp
  from tick_loop_spec [OF this, of 1]
  obtain ts where t: "tick_loop (size' s) 1 (tasks s) = Some ts" by blast
  from reschedule_defined [OF tick_loop_inv [OF inv t]] t
  show ?thesis by (simp add: SysTick_Handler_def os_reschedule_def)
qed

lemma SysTick_Handler_inv:
  assumes inv: "kernel_inv cfg s" and r: "SysTick_Handler s = Some s'"
  shows "kernel_inv cfg s'"
proof -
  from r obtain ts where t: "tick_loop (size' s) 1 (tasks s) = Some ts"
    and r': "reschedule (s\<lparr>tasks := ts\<rparr>) = Some s'"
    by (auto simp: SysTick_Handler_def os_reschedule_def split: option.splits)
  from tick_loop_inv [OF inv t] r' show ?thesis by (rule reschedule_inv)
qed

lemma os_svcall_handler_defined:
  "kernel_inv cfg s \<Longrightarrow> \<exists>s'. os_svcall_handler n s = Some s'"
  using reschedule_defined by (auto simp: os_svcall_handler_def)

lemma os_svcall_handler_inv:
  "kernel_inv cfg s \<Longrightarrow> os_svcall_handler n s = Some s' \<Longrightarrow> kernel_inv cfg s'"
  using reschedule_inv by (auto simp: os_svcall_handler_def split: if_splits)

lemma os_delay_mark_defined:
  "kernel_inv cfg s \<Longrightarrow> \<exists>r. os_delay_mark t s = Some r"
  by (auto simp: os_delay_mark_def kernel_inv_def)

lemma os_delay_mark_inv:
  assumes inv: "kernel_inv cfg s" and r: "os_delay_mark t s = Some (e, s')"
  shows "kernel_inv cfg s'"
proof (cases "m_state s = OS_STATE_STARTED")
  case False
  with r inv show ?thesis by (simp add: os_delay_mark_def)
next
  case True
  have cur: "unat (current_task s) < length (tasks s)" using inv by (simp add: kernel_inv_def)
  with True r have s': "s' = s\<lparr>tasks := (tasks s)[unat (current_task s) :=
                        (tasks s ! unat (current_task s))
                          \<lparr>status := OS_TASK_STATUS_WAITING, wait_ticks := t\<rparr>],
            hw := hw s @ [DISABLE_IRQ, ENABLE_IRQ]\<rparr>"
    by (simp add: os_delay_mark_def)
  show ?thesis unfolding s' kernel_inv_def using inv
    by (auto simp: kernel_inv_def nth_list_update)
qed

lemma os_delay_defined:
  assumes inv: "kernel_inv cfg s"
  shows "\<exists>r. os_delay t s = Some r"
proof -
  from os_delay_mark_defined [OF inv] obtain e s1 where m: "os_delay_mark t s = Some (e, s1)"
    by (metis surj_pair)
  from os_delay_mark_inv [OF inv m] have "\<exists>s2. os_svcall_handler 0x01 s1 = Some s2"
    by (rule os_svcall_handler_defined)
  with m show ?thesis by (auto simp: os_delay_def)
qed

lemma os_delay_inv:
  assumes inv: "kernel_inv cfg s" and r: "os_delay t s = Some (e, s')"
  shows "kernel_inv cfg s'"
proof -
  from r obtain e1 s1 where m: "os_delay_mark t s = Some (e1, s1)"
    by (auto simp: os_delay_def split: option.splits)
  have i1: "kernel_inv cfg s1" using inv m by (rule os_delay_mark_inv)
  show ?thesis
  proof (cases "e1 = OS_ERROR_OK")
    case False
    with r m i1 show ?thesis by (simp add: os_delay_def)
  next
    case True
    with r m obtain s2 where "os_svcall_handler 0x01 s1 = Some s2" "s' = s2"
      by (auto simp: os_delay_def)
    with i1 show ?thesis using os_svcall_handler_inv by blast
  qed
qed

lemma kernel_inv_cong:
  "tasks s' = tasks s \<Longrightarrow> current_task s' = current_task s \<Longrightarrow> size' s' = size' s
   \<Longrightarrow> kernel_inv cfg s' = kernel_inv cfg s"
  by (simp add: kernel_inv_def)

lemma os_start_defined:
  "kernel_inv cfg s \<Longrightarrow> \<exists>r. os_start cfg t s = Some r"
  by (auto simp: os_start_def Let_def kernel_inv_def)

lemma os_start_inv:
  assumes inv: "kernel_inv cfg s" and r: "os_start cfg t s = Some (e, s')"
  shows "kernel_inv cfg s'"
proof -
  have "tasks s' = tasks s \<and> current_task s' = current_task s \<and> size' s' = size' s"
    using r by (auto simp: os_start_def Let_def split: if_splits)
  with inv show ?thesis using kernel_inv_cong by blast
qed

lemma step_defined:
  assumes inv: "kernel_inv cfg s"
  shows "\<exists>s'. step cfg e s = Some s'"
proof (cases e)
  case (Start t)
  with os_start_defined [OF inv, of t] show ?thesis by auto
next
  case (Delay t)
  with os_delay_defined [OF inv, of t] show ?thesis by auto
next
  case (DelayMark t)
  with os_delay_mark_defined [OF inv, of t] show ?thesis by auto
next
  case Tick
  with SysTick_Handler_defined [OF inv] show ?thesis by simp
next
  case (Svc n)
  with os_svcall_handler_defined [OF inv, of n] show ?thesis by simp
qed simp_all

lemma step_inv:
  assumes inv: "kernel_inv cfg s" and st: "step cfg e s = Some s'"
  shows "kernel_inv cfg s'"
proof (cases e)
  case Init
  with st os_init_inv [OF inv] show ?thesis by auto
next
  case (TaskInit h p stk n)
  with st os_task_init_inv [OF inv] show ?thesis by auto
next
  case (Start t)
  with st obtain r where "os_start cfg t s = Some r" "s' = snd r" by auto
  with os_start_inv [OF inv] show ?thesis by (metis prod.collapse)
next
  case (Delay t)
  with st obtain r where "os_delay t s = Some r" "s' = snd r" by auto
  with os_delay_inv [OF inv] show ?thesis by (metis prod.collapse)
next
  case (DelayMark t)
  with st obtain r where "os_delay_mark t s = Some r" "s' = snd r" by auto
  with os_delay_mark_inv [OF inv] show ?thesis by (metis prod.collapse)
next
  case Tick
  with st SysTick_Handler_inv [OF inv] show ?thesis by simp
next
  case (Svc n)
  with st os_svcall_handler_inv [OF inv] show ?thesis by simp
qed

lemma reachable_inv: "reachable cfg s \<Longrightarrow> kernel_inv cfg s"
  by (induction rule: reachable.induct) (auto intro: boot_inv step_inv)

lemma run_inv: "kernel_inv cfg s \<Longrightarrow> run cfg es s = Some s' \<Longrightarrow> kernel_inv cfg s'"
  by (induction es arbitrary: s) (auto split: option.splits intro: step_inv)

lemma run_defined: "kernel_inv cfg s \<Longrightarrow> \<exists>s'. run cfg es s = Some s'"
proof (induction es arbitrary: s)
  case Nil
  then show ?case by simp
next
  case (Cons e es)
  from step_defined [OF Cons.prems] obtain s1 where s1: "step cfg e s = Some s1" by blast
  from Cons.IH [OF step_inv [OF Cons.prems s1]] s1 show ?case by simp
qed

lemma run_reachable: "reachable cfg s \<Longrightarrow> run cfg es s = Some s' \<Longrightarrow> reachable cfg s'"
  by (induction es arbitrary: s) (auto split: option.splits intro: reachable_step)

lemma run_append:
  "run cfg (es @ fs) s = (case run cfg es s of None \<Rightarrow> None | Some s1 \<Rightarrow> run cfg fs s1)"
  by (induction es arbitrary: s) (auto split: option.splits)

section \<open>Reachable states of the concrete system\<close>

lemma after_run_reachable: "reachable cfg3 (after_run es)"
proof -
  from run_defined [OF boot_inv] obtain s' where r: "run cfg3 es (boot cfg3 zero_ram) = Some s'"
    by blast
  from run_reachable [OF reachable_boot r] r show ?thesis by (simp add: after_run_def)
qed

lemma s_init_reachable: "reachable cfg3 s_init"
  unfolding s_init_def
  by (rule reachable_step [where e = Init, OF reachable_boot]) simp

section \<open>The scheduler: termination and the switch request\<close>





section \<open>Invariants of the task table\<close>

text \<open>
  C8, as the spec states it, fails. At program start \<open>current_task = size' = 0\<close>.
  \<^verbatim>\<open>os_init\<close> sets \<^verbatim>\<open>current_task = 1\<close> when the idle task alone is registered: in
  the state it returns, \<open>current_task = size' = 1\<close>.
\<close>

theorem C8_counterexample:
  "reachable cfg3 (boot cfg3 zero_ram)
   \<and> \<not> current_task (boot cfg3 zero_ram) < size' (boot cfg3 zero_ram)
   \<and> reachable cfg3 s_init \<and> fst (os_init cfg3 (boot cfg3 zero_ram)) = OS_ERROR_OK
   \<and> current_task s_init = 1 \<and> size' s_init = 1
   \<and> \<not> current_task s_init < size' s_init"
proof -
  have "fst (os_init cfg3 (boot cfg3 zero_ram)) = OS_ERROR_OK" by code_simp
  moreover have "current_task s_init = 1" unfolding s_init_def by code_simp
  moreover have "size' s_init = 1" unfolding s_init_def by code_simp
  moreover have "\<not> current_task (boot cfg3 zero_ram) < size' (boot cfg3 zero_ram)"
    by (simp add: boot_def)
  ultimately show ?thesis using s_init_reachable reachable_boot by simp
qed

text \<open>
  C8, amended. In every state of a run the current slot is inside the task array; it is
  below \<open>size'\<close> as soon as a user task is registered (\<open>size' \<ge> 2\<close>), and it is 0 or 1
  before.
\<close>

theorem C8_current_task_bound:
  assumes "reachable cfg s"
  shows "unat (current_task s) < OS_TASKS_COUNT cfg
       \<and> (2 \<le> unat (size' s) \<longrightarrow> current_task s < size' s)
       \<and> (unat (size' s) < 2 \<longrightarrow> unat (current_task s) \<le> 1)"
proof -
  have inv: "kernel_inv cfg s" using assms by (rule reachable_inv)
  then have a: "unat (current_task s) < OS_TASKS_COUNT cfg"
    and b: "current_task s \<le> 1 \<or> current_task s < size' s"
    unfolding kernel_inv_def by simp_all
  from b have "unat (size' s) < 2 \<longrightarrow> unat (current_task s) \<le> 1"
    by (auto simp: word_le_nat_alt word_less_nat_alt)
  with a kernel_inv_current [OF inv] show ?thesis by blast
qed

theorem C8_current_task_bound_witness:
  "reachable cfg3 s_two \<and> unat (current_task s_two) < OS_TASKS_COUNT cfg3
   \<and> 2 \<le> unat (size' s_two) \<and> current_task s_two < size' s_two"
proof -
  have r: "reachable cfg3 s_two" unfolding s_two_def by (rule after_run_reachable)
  have z: "2 \<le> unat (size' s_two)"
    unfolding s_two_def after_run_def task_a_def task_b_def by code_simp
  from C8_current_task_bound [OF r] r z show ?thesis by blast
qed




section \<open>The capacity of the task table\<close>

lemma create_tasks_fill:
  assumes "m_state s = OS_STATE_INITIALIZED \<or> m_state s = OS_STATE_TASKS_INITIALIZED"
      and "unat (size' s) + length args = OS_CONFIG_MAX_TASKS cfg"
      and "OS_CONFIG_MAX_TASKS cfg < 2 ^ 32"
  shows "fst (create_tasks cfg args s) = replicate (length args) OS_ERROR_OK
       \<and> size' (snd (create_tasks cfg args s)) = of_nat (OS_CONFIG_MAX_TASKS cfg)
       \<and> (m_state (snd (create_tasks cfg args s)) = OS_STATE_INITIALIZED
          \<or> m_state (snd (create_tasks cfg args s)) = OS_STATE_TASKS_INITIALIZED)"
  using assms
proof (induction args arbitrary: s)
  case Nil
  then have "unat (size' s) = OS_CONFIG_MAX_TASKS cfg" by simp
  then have "of_nat (OS_CONFIG_MAX_TASKS cfg) = (of_nat (unat (size' s)) :: u32)" by simp
  then have "of_nat (OS_CONFIG_MAX_TASKS cfg) = size' s" by simp
  with Nil show ?case by simp
next
  case (Cons a args)
  obtain h p st n where a: "a = (h, p, st, n)" by (metis prod_cases4)
  let ?M = "OS_CONFIG_MAX_TASKS cfg"
  have um: "unat (of_nat ?M :: u32) = ?M" using Cons.prems(3) by (simp add: unat_of_nat)
  have lt: "size' s < of_nat ?M" using Cons.prems(2) um by (simp add: word_less_nat_alt)
  let ?r = "os_task_init cfg h p st n s"
  have ok: "fst ?r = OS_ERROR_OK" and z: "size' (snd ?r) = size' s + 1"
    and ms: "m_state (snd ?r) = OS_STATE_TASKS_INITIALIZED"
    using Cons.prems(1) lt by (auto simp: os_task_init_def Let_def OS_TASKS_COUNT_def not_le [symmetric])
  have "unat (size' (snd ?r)) + length args = ?M"
    using z unat_plus1 [OF lt] Cons.prems(2) by simp
  from Cons.IH [OF _ this Cons.prems(3)] ms ok a show ?case by (simp add: Let_def)
qed

text \<open>
  What the guard of \<^verbatim>\<open>os_task_init\<close> admits. The function registers a task while
  \<open>size'\<close> is below \<^verbatim>\<open>OS_TASKS_COUNT - 1\<close>, which is \<^verbatim>\<open>OS_CONFIG_MAX_TASKS\<close>. From a
  state in which tasks may be registered and only the idle task is (\<open>size' = 1\<close>),
  \<^verbatim>\<open>OS_CONFIG_MAX_TASKS - 1\<close> calls in a row succeed; \<open>size'\<close> is then
  \<^verbatim>\<open>OS_CONFIG_MAX_TASKS\<close>, and any further call returns \<^verbatim>\<open>OS_ERROR_NO_MEM\<close> and leaves
  the whole state as it was.
\<close>

lemma create_tasks_guard:
  assumes "m_state s = OS_STATE_INITIALIZED \<or> m_state s = OS_STATE_TASKS_INITIALIZED"
      and "size' s = 1"
      and "1 \<le> OS_CONFIG_MAX_TASKS cfg" and "OS_CONFIG_MAX_TASKS cfg < 2 ^ 32"
      and "length args = OS_CONFIG_MAX_TASKS cfg - 1"
  shows "fst (create_tasks cfg args s) = replicate (OS_CONFIG_MAX_TASKS cfg - 1) OS_ERROR_OK
       \<and> size' (snd (create_tasks cfg args s)) = of_nat (OS_CONFIG_MAX_TASKS cfg)
       \<and> os_task_init cfg h p st n (snd (create_tasks cfg args s))
           = (OS_ERROR_NO_MEM, snd (create_tasks cfg args s))"
proof -
  have "unat (size' s) + length args = OS_CONFIG_MAX_TASKS cfg"
    using assms(2,3,5) by simp
  from create_tasks_fill [OF assms(1) this assms(4)] assms(5)
  show ?thesis by (auto simp: os_task_init_def OS_TASKS_COUNT_def)
qed

text \<open>
  C3 asks that the table can be filled to its capacity of \<^verbatim>\<open>OS_CONFIG_MAX_TASKS + 1\<close>
  slots before \<^verbatim>\<open>os_task_init\<close> returns \<^verbatim>\<open>OS_ERROR_NO_MEM\<close>. The code refuses one slot
  early. With \<^verbatim>\<open>OS_CONFIG_MAX_TASKS = 3\<close> the array has four slots; after \<^verbatim>\<open>os_init\<close>
  has registered the idle task, two calls succeed and the third and fourth return
  \<^verbatim>\<open>OS_ERROR_NO_MEM\<close>, with \<open>size' = 3\<close> and slot 3 never written. With
  \<^verbatim>\<open>OS_CONFIG_MAX_TASKS = 1\<close> the array has two slots, \<^verbatim>\<open>os_init\<close> succeeds, slot 1 is
  free, and the first call of \<^verbatim>\<open>os_task_init\<close> already returns \<^verbatim>\<open>OS_ERROR_NO_MEM\<close>.
\<close>

theorem C3_last_slot_unused:
  "OS_TASKS_COUNT cfg3 = 4 \<and> length (tasks s_init) = 4 \<and> size' s_init = 1
   \<and> fst (create_tasks cfg3 four_tasks s_init)
      = [OS_ERROR_OK, OS_ERROR_OK, OS_ERROR_NO_MEM, OS_ERROR_NO_MEM]
   \<and> size' (snd (create_tasks cfg3 four_tasks s_init)) = 3
   \<and> status (tasks (snd (create_tasks cfg3 four_tasks s_init)) ! 3) = OS_TASK_STATUS_ZERO
   \<and> OS_TASKS_COUNT cfg1 = 2 \<and> fst (os_init cfg1 (boot cfg1 zero_ram)) = OS_ERROR_OK
   \<and> length (tasks s_init1) = 2 \<and> size' s_init1 = 1
   \<and> status (tasks s_init1 ! 1) = OS_TASK_STATUS_ZERO
   \<and> fst (os_task_init cfg1 0x08000301 0x20000400 0x20001000 64 s_init1) = OS_ERROR_NO_MEM"
proof -
  have "OS_TASKS_COUNT cfg3 = 4" by code_simp
  moreover have "length (tasks s_init) = 4" "size' s_init = 1"
    unfolding s_init_def by code_simp+
  moreover have "fst (create_tasks cfg3 four_tasks s_init)
      = [OS_ERROR_OK, OS_ERROR_OK, OS_ERROR_NO_MEM, OS_ERROR_NO_MEM]"
    "size' (snd (create_tasks cfg3 four_tasks s_init)) = 3"
    "status (tasks (snd (create_tasks cfg3 four_tasks s_init)) ! 3) = OS_TASK_STATUS_ZERO"
    unfolding s_init_def four_tasks_def by code_simp+
  moreover have "OS_TASKS_COUNT cfg1 = 2" "fst (os_init cfg1 (boot cfg1 zero_ram)) = OS_ERROR_OK"
    by code_simp+
  moreover have "length (tasks s_init1) = 2" "size' s_init1 = 1"
    "status (tasks s_init1 ! 1) = OS_TASK_STATUS_ZERO"
    "fst (os_task_init cfg1 0x08000301 0x20000400 0x20001000 64 s_init1) = OS_ERROR_NO_MEM"
    unfolding s_init1_def by code_simp+
  ultimately show ?thesis by simp
qed

section \<open>Round robin\<close>







section \<open>Delays\<close>

lemma delayed_frame:
  assumes d: "delayed cfg p r s" and inv: "kernel_inv cfg s'"
      and f: "m_state s' = m_state s" "size' s' = size' s"
      and t: "tasks s' ! p = tasks s ! p" and c: "unat (current_task s') \<noteq> p"
  shows "delayed cfg p r s'"
  using assms by (simp add: delayed_def)

lemma delayed_reschedule:
  assumes d: "delayed cfg p r s" and r: "reschedule s = Some s'"
  shows "delayed cfg p r s'"
proof -
  have inv: "kernel_inv cfg s" using d by (simp add: delayed_def)
  have pl: "p < length (tasks s)" using d kernel_inv_size [OF inv] by (simp add: delayed_def)
  have "tasks s' ! p = tasks s ! p \<and> unat (current_task s') \<noteq> p"
    using inv r _ pl by (rule reschedule_blocked) (use d in \<open>simp_all add: delayed_def\<close>)
  with d reschedule_inv [OF inv r] reschedule_frame [OF r] show ?thesis
    by (intro delayed_frame [OF d]) simp_all
qed

lemma delayed_svcall:
  "delayed cfg p r s \<Longrightarrow> os_svcall_handler n s = Some s' \<Longrightarrow> delayed cfg p r s'"
  using delayed_reschedule by (auto simp: os_svcall_handler_def split: if_splits)

lemma delayed_mark:
  assumes d: "delayed cfg p r s" and m: "os_delay_mark t s = Some (e, s')"
  shows "delayed cfg p r s'"
proof -
  have inv: "kernel_inv cfg s" using d by (simp add: delayed_def)
  have cur: "unat (current_task s) < length (tasks s)" using inv by (simp add: kernel_inv_def)
  have "m_state s' = m_state s \<and> size' s' = size' s \<and> current_task s' = current_task s
        \<and> tasks s' ! p = tasks s ! p"
    using m d cur by (auto simp: os_delay_mark_def delayed_def split: if_splits)
  with d os_delay_mark_inv [OF inv m] show ?thesis
    by (intro delayed_frame [OF d]) (simp_all add: delayed_def)
qed

lemma delayed_delay:
  assumes d: "delayed cfg p r s" and m: "os_delay t s = Some (e, s')"
  shows "delayed cfg p r s'"
proof -
  from m obtain e1 s1 where m1: "os_delay_mark t s = Some (e1, s1)"
    by (auto simp: os_delay_def split: option.splits)
  have d1: "delayed cfg p r s1" using d m1 by (rule delayed_mark)
  show ?thesis
  proof (cases "e1 = OS_ERROR_OK")
    case False
    with m m1 d1 show ?thesis by (simp add: os_delay_def)
  next
    case True
    with m m1 have "os_svcall_handler 0x01 s1 = Some s'" by (auto simp: os_delay_def)
    with d1 show ?thesis by (rule delayed_svcall)
  qed
qed

text \<open>
  What the loop of the tick handler does to a task that waits in an occupied user slot.
\<close>

lemma tick_loop_at:
  assumes inv: "kernel_inv cfg s" and p: "1 \<le> p" "p < unat (size' s)"
  shows "\<exists>ts. tick_loop (size' s) 1 (tasks s) = Some ts \<and> ts ! p = tick_task (tasks s ! p)"
proof -
  have l: "unat (size' s) \<le> length (tasks s)" using kernel_inv_size [OF inv] by simp
  from tick_loop_spec [OF l, of 1] p l show ?thesis by auto
qed

lemma delayed_tick:
  assumes d: "delayed cfg p (Suc (Suc r)) s" and t: "SysTick_Handler s = Some s'"
  shows "delayed cfg p (Suc r) s'"
proof -
  have inv: "kernel_inv cfg s" and p: "1 \<le> p" "p < unat (size' s)"
    and w: "status (tasks s ! p) = OS_TASK_STATUS_WAITING"
           "unat (wait_ticks (tasks s ! p)) = Suc (Suc r)"
    using d by (simp_all add: delayed_def)
  from t obtain ts where ts: "tick_loop (size' s) 1 (tasks s) = Some ts"
    and r: "reschedule (s\<lparr>tasks := ts\<rparr>) = Some s'"
    by (auto simp: SysTick_Handler_def os_reschedule_def split: option.splits)
  from tick_loop_at [OF inv p] ts have tp: "ts ! p = tick_task (tasks s ! p)" by simp
  have u1: "unat (wait_ticks (tasks s ! p) - 1) = Suc r"
    using w(2) by (simp add: unat_sub_if' unat_eq_0 [symmetric] word_le_nat_alt)
  then have nz: "wait_ticks (tasks s ! p) - 1 \<noteq> 0" by (metis unat_0 nat.distinct(1))
  have "delayed cfg p (Suc r) (s\<lparr>tasks := ts\<rparr>)"
    using d tick_loop_inv [OF inv ts] tp w u1 nz
    by (simp add: delayed_def tick_task_def)
  then show ?thesis using r by (rule delayed_reschedule)
qed

lemma delayed_step:
  assumes d: "delayed cfg p r s" and st: "step cfg e s = Some s'" and e: "e \<noteq> Tick"
  shows "delayed cfg p r s'"
proof (cases e)
  case Init
  with st d show ?thesis by (auto simp: os_init_def delayed_def)
next
  case (TaskInit h q stk n)
  with st d show ?thesis by (auto simp: os_task_init_def delayed_def)
next
  case (Start t)
  with st d show ?thesis by (auto simp: os_start_def delayed_def)
next
  case (Delay t)
  with st obtain x where "os_delay t s = Some x" "s' = snd x" by auto
  with delayed_delay [OF d] show ?thesis by (metis prod.collapse)
next
  case (DelayMark t)
  with st obtain x where "os_delay_mark t s = Some x" "s' = snd x" by auto
  with delayed_mark [OF d] show ?thesis by (metis prod.collapse)
next
  case Tick
  with e show ?thesis by simp
next
  case (Svc n)
  with st delayed_svcall [OF d] show ?thesis by simp
qed

lemma delayed_run:
  assumes "delayed cfg p r s" and "run cfg es s = Some s'" and "ticks_in es < r"
  shows "delayed cfg p (r - ticks_in es) s'"
  using assms
proof (induction es arbitrary: s r)
  case Nil
  then show ?case by (simp add: ticks_in_def)
next
  case (Cons e es)
  from Cons.prems(2) obtain s1 where s1: "step cfg e s = Some s1" and rest: "run cfg es s1 = Some s'"
    by (auto split: option.splits)
  show ?case
  proof (cases "e = Tick")
    case False
    then have k: "ticks_in (e # es) = ticks_in es" by (simp add: ticks_in_def)
    from delayed_step [OF Cons.prems(1) s1 False] have "delayed cfg p r s1" .
    from Cons.IH [OF this rest] Cons.prems(3) k show ?thesis by simp
  next
    case True
    then have k: "ticks_in (e # es) = Suc (ticks_in es)" by (simp add: ticks_in_def)
    with Cons.prems(3) obtain r' where r': "r = Suc (Suc r')" "ticks_in es < Suc r'"
      by (metis Suc_lessE Suc_less_eq less_nat_zero_code not0_implies_Suc)
    from Cons.prems(1) s1 True r' have "delayed cfg p (Suc r') s1"
      using delayed_tick by simp
    from Cons.IH [OF this rest r'(2)] k r' show ?thesis by simp
  qed
qed

text \<open>
  A user task that calls \<^verbatim>\<open>os_delay\<close> with a non-zero count is blocked afterwards.
\<close>

lemma os_delay_delayed:
  assumes inv: "kernel_inv cfg s" and st: "m_state s = OS_STATE_STARTED"
      and c: "current_task s \<noteq> 0" "current_task s < size' s"
      and d: "os_delay ticks s = Some (e, s1)"
  shows "e = OS_ERROR_OK \<and> delayed cfg (unat (current_task s)) (unat ticks) s1"
proof -
  let ?p = "unat (current_task s)"
  have cur: "?p < length (tasks s)" using inv by (simp add: kernel_inv_def)
  let ?m = "s\<lparr>tasks := (tasks s)[?p := (tasks s ! ?p)
                          \<lparr>status := OS_TASK_STATUS_WAITING, wait_ticks := ticks\<rparr>],
            hw := hw s @ [DISABLE_IRQ, ENABLE_IRQ]\<rparr>"
  have m: "os_delay_mark ticks s = Some (OS_ERROR_OK, ?m)"
    using st cur by (simp add: os_delay_mark_def)
  have invm: "kernel_inv cfg ?m" using inv m by (rule os_delay_mark_inv)
  from d m have e: "e = OS_ERROR_OK" and r: "reschedule ?m = Some s1"
    by (auto simp: os_delay_def os_svcall_handler_def)
  have p1: "1 \<le> ?p" using c(1) by (metis One_nat_def Suc_leI unat_eq_0 not_gr_zero)
  have b: "tasks s1 ! ?p = tasks ?m ! ?p \<and> unat (current_task s1) \<noteq> ?p"
    using invm r p1 by (rule reschedule_blocked) (use cur in simp_all)
  have "delayed cfg ?p (unat ticks) s1"
    unfolding delayed_def
    using reschedule_inv [OF invm r] reschedule_frame [OF r] b st c(2) p1 cur
    by (simp add: word_less_nat_alt)
  with e show ?thesis by simp
qed

text \<open>
  The scheduler leaves the counters alone, and sets a status to idle or active only.
\<close>

lemma reschedule_tcb:
  assumes inv: "kernel_inv cfg s" and r: "reschedule s = Some s'" and i: "i < length (tasks s)"
  shows "wait_ticks (tasks s' ! i) = wait_ticks (tasks s ! i)
       \<and> (status (tasks s' ! i) = status (tasks s ! i)
          \<or> status (tasks s' ! i) = OS_TASK_STATUS_IDLE
          \<or> status (tasks s' ! i) = OS_TASK_STATUS_ACTIVE)"
proof -
  have ac: "wait_ticks (after_check s ! i) = wait_ticks (tasks s ! i)
       \<and> (status (after_check s ! i) = status (tasks s ! i)
          \<or> status (after_check s ! i) = OS_TASK_STATUS_IDLE)"
    using i by (simp add: after_check_def nth_set_status)
  show ?thesis
  proof (cases "ready_queue s")
    case Nil
    from reschedule_no_ready [OF inv Nil] r
    have "tasks s' = set_status OS_TASK_STATUS_ACTIVE 0 (tasks s)" by auto
    with i show ?thesis by (simp add: nth_set_status)
  next
    case (Cons x xs)
    from reschedule_ready [OF inv Cons] r
    have "tasks s' = set_status OS_TASK_STATUS_ACTIVE x (after_check s)" by auto
    with i have "tasks s' ! i = (if i = x then (after_check s ! i)\<lparr>status := OS_TASK_STATUS_ACTIVE\<rparr>
                                 else after_check s ! i)"
      by (simp add: nth_set_status)
    with ac show ?thesis by (cases "i = x") auto
  qed
qed

lemma reschedule_woken:
  assumes inv: "kernel_inv cfg s" and r: "reschedule s = Some s'" and i: "i < length (tasks s)"
      and w: "status (tasks s ! i) = OS_TASK_STATUS_IDLE"
  shows "status (tasks s' ! i) = OS_TASK_STATUS_IDLE \<or> status (tasks s' ! i) = OS_TASK_STATUS_ACTIVE"
  using reschedule_tcb [OF inv r i] w by auto

text \<open>
  A delay of at least one tick ends in the tick it asks for. Let a registered user task
  (the current slot \<open>p\<close>, with \<open>1 \<le> p < size'\<close>) call \<^verbatim>\<open>os_delay(N)\<close> with \<open>N \<ge> 1\<close> in a
  started system. The call marks the task and yields. Whatever happens next (ticks,
  supervisor calls, delays of other tasks, API calls), as long as fewer than \<open>N\<close> ticks
  have been served the task waits, with \<open>N\<close> less the number of ticks served to go. When
  \<open>N - 1\<close> ticks have been served, the next tick's loop over the counters marks the task
  idle, and at the end of that tick handler the task is idle or active.
\<close>

lemma delay_wakeup:
  assumes "reachable cfg s" and "m_state s = OS_STATE_STARTED"
      and "current_task s \<noteq> 0" and "current_task s < size' s" and "ticks \<noteq> 0"
  shows "\<exists>s1. os_delay ticks s = Some (OS_ERROR_OK, s1) \<and>
          (\<forall>es. \<exists>s2. run cfg es s1 = Some s2
             \<and> (ticks_in es < unat ticks \<longrightarrow>
                   status (tasks s2 ! unat (current_task s)) = OS_TASK_STATUS_WAITING
                 \<and> unat (wait_ticks (tasks s2 ! unat (current_task s))) = unat ticks - ticks_in es)
             \<and> (ticks_in es = unat ticks - 1 \<longrightarrow>
                   (\<exists>ts s3. tick_loop (size' s2) 1 (tasks s2) = Some ts
                       \<and> status (ts ! unat (current_task s)) = OS_TASK_STATUS_IDLE
                       \<and> SysTick_Handler s2 = Some s3
                       \<and> (status (tasks s3 ! unat (current_task s)) = OS_TASK_STATUS_IDLE
                         \<or> status (tasks s3 ! unat (current_task s)) = OS_TASK_STATUS_ACTIVE))))"
proof -
  let ?p = "unat (current_task s)"
  have inv: "kernel_inv cfg s" using assms(1) by (rule reachable_inv)
  from os_delay_defined [OF inv] obtain e s1 where d: "os_delay ticks s = Some (e, s1)"
    by (metis surj_pair)
  from os_delay_delayed [OF inv assms(2,3,4) d]
  have e: "e = OS_ERROR_OK" and d1: "delayed cfg ?p (unat ticks) s1" by simp_all
  have inv1: "kernel_inv cfg s1" using d1 by (simp add: delayed_def)
  have N: "0 < unat ticks" using assms(5) by (simp add: unat_gt_0)
  have "\<forall>es. \<exists>s2. run cfg es s1 = Some s2
             \<and> (ticks_in es < unat ticks \<longrightarrow>
                   status (tasks s2 ! ?p) = OS_TASK_STATUS_WAITING
                 \<and> unat (wait_ticks (tasks s2 ! ?p)) = unat ticks - ticks_in es)
             \<and> (ticks_in es = unat ticks - 1 \<longrightarrow>
                   (\<exists>ts s3. tick_loop (size' s2) 1 (tasks s2) = Some ts
                       \<and> status (ts ! ?p) = OS_TASK_STATUS_IDLE
                       \<and> SysTick_Handler s2 = Some s3
                       \<and> (status (tasks s3 ! ?p) = OS_TASK_STATUS_IDLE
                         \<or> status (tasks s3 ! ?p) = OS_TASK_STATUS_ACTIVE)))"
  proof
    fix es
    from run_defined [OF inv1] obtain s2 where s2: "run cfg es s1 = Some s2" by blast
    have a: "ticks_in es < unat ticks \<longrightarrow>
                   status (tasks s2 ! ?p) = OS_TASK_STATUS_WAITING
                 \<and> unat (wait_ticks (tasks s2 ! ?p)) = unat ticks - ticks_in es"
      using delayed_run [OF d1 s2] by (simp add: delayed_def)
    have b: "ticks_in es = unat ticks - 1 \<longrightarrow>
                   (\<exists>ts s3. tick_loop (size' s2) 1 (tasks s2) = Some ts
                       \<and> status (ts ! ?p) = OS_TASK_STATUS_IDLE
                       \<and> SysTick_Handler s2 = Some s3
                       \<and> (status (tasks s3 ! ?p) = OS_TASK_STATUS_IDLE
                         \<or> status (tasks s3 ! ?p) = OS_TASK_STATUS_ACTIVE))"
    proof
      assume k: "ticks_in es = unat ticks - 1"
      with N have "ticks_in es < unat ticks" by simp
      from delayed_run [OF d1 s2 this] k N have d2: "delayed cfg ?p 1 s2" by simp
      then have inv2: "kernel_inv cfg s2" and p: "1 \<le> ?p" "?p < unat (size' s2)"
        and w: "status (tasks s2 ! ?p) = OS_TASK_STATUS_WAITING"
               "unat (wait_ticks (tasks s2 ! ?p)) = 1"
        by (simp_all add: delayed_def)
      from w(2) have w1: "wait_ticks (tasks s2 ! ?p) = 1" by (metis unat_1 word_unat_eq_iff)
      from tick_loop_at [OF inv2 p] obtain ts where
        ts: "tick_loop (size' s2) 1 (tasks s2) = Some ts" "ts ! ?p = tick_task (tasks s2 ! ?p)"
        by blast
      have idle: "status (ts ! ?p) = OS_TASK_STATUS_IDLE"
        using ts(2) w(1) w1 by (simp add: tick_task_def)
      from SysTick_Handler_defined [OF inv2] obtain s3 where s3: "SysTick_Handler s2 = Some s3"
        by blast
      with ts(1) have r: "reschedule (s2\<lparr>tasks := ts\<rparr>) = Some s3"
        by (simp add: SysTick_Handler_def os_reschedule_def)
      have invt: "kernel_inv cfg (s2\<lparr>tasks := ts\<rparr>)" using inv2 ts(1) by (rule tick_loop_inv)
      then have "?p < length (tasks (s2\<lparr>tasks := ts\<rparr>))"
        using p kernel_inv_size [OF invt] by simp
      from reschedule_woken [OF invt r this] idle
      have "(status (tasks s3 ! ?p) = OS_TASK_STATUS_IDLE
                         \<or> status (tasks s3 ! ?p) = OS_TASK_STATUS_ACTIVE)" by simp
      with ts(1) idle s3 show "\<exists>ts s3. tick_loop (size' s2) 1 (tasks s2) = Some ts
                       \<and> status (ts ! ?p) = OS_TASK_STATUS_IDLE
                       \<and> SysTick_Handler s2 = Some s3
                       \<and> (status (tasks s3 ! ?p) = OS_TASK_STATUS_IDLE
                         \<or> status (tasks s3 ! ?p) = OS_TASK_STATUS_ACTIVE)" by blast
    qed
    from s2 a b show "\<exists>s2. run cfg es s1 = Some s2
             \<and> (ticks_in es < unat ticks \<longrightarrow>
                   status (tasks s2 ! ?p) = OS_TASK_STATUS_WAITING
                 \<and> unat (wait_ticks (tasks s2 ! ?p)) = unat ticks - ticks_in es)
             \<and> (ticks_in es = unat ticks - 1 \<longrightarrow>
                   (\<exists>ts s3. tick_loop (size' s2) 1 (tasks s2) = Some ts
                       \<and> status (ts ! ?p) = OS_TASK_STATUS_IDLE
                       \<and> SysTick_Handler s2 = Some s3
                       \<and> (status (tasks s3 ! ?p) = OS_TASK_STATUS_IDLE
                         \<or> status (tasks s3 ! ?p) = OS_TASK_STATUS_ACTIVE)))" by blast
  qed
  with d e show ?thesis by blast
qed

lemma delay_wakeup_example:
  "reachable cfg3 s_started \<and> m_state s_started = OS_STATE_STARTED
   \<and> current_task s_started = 1 \<and> size' s_started = 2
   \<and> os_delay 2 s_started = Some (OS_ERROR_OK, s_delay2)
   \<and> status (tasks s_delay2 ! 1) = OS_TASK_STATUS_WAITING
   \<and> wait_ticks (tasks s_delay2 ! 1) = 2
   \<and> run cfg3 [Tick] s_delay2 = Some s_delay2_tick
   \<and> status (tasks s_delay2_tick ! 1) = OS_TASK_STATUS_WAITING
   \<and> wait_ticks (tasks s_delay2_tick ! 1) = 1
   \<and> map_option (\<lambda>ts. status (ts ! 1)) (tick_loop (size' s_delay2_tick) 1 (tasks s_delay2_tick))
       = Some OS_TASK_STATUS_IDLE
   \<and> map_option (\<lambda>s. status (tasks s ! 1)) (SysTick_Handler s_delay2_tick)
       = Some OS_TASK_STATUS_ACTIVE"
proof -
  have r: "reachable cfg3 s_started" unfolding s_started_def by (rule after_run_reachable)
  have m: "m_state s_started = OS_STATE_STARTED" and c: "current_task s_started = 1"
    and z: "size' s_started = 2"
    unfolding s_started_def after_run_def task_a_def by code_simp+
  have c0: "current_task s_started \<noteq> 0" and cz: "current_task s_started < size' s_started"
    by (simp_all add: c z)
  have t: "(2 :: u32) \<noteq> 0" by simp
  from delay_wakeup [OF r m c0 cz t] obtain s1 where
    d: "os_delay 2 s_started = Some (OS_ERROR_OK, s1)"
    and all: "\<And>es. \<exists>s2. run cfg3 es s1 = Some s2
             \<and> (ticks_in es < unat (2 :: u32) \<longrightarrow>
                   status (tasks s2 ! unat (current_task s_started)) = OS_TASK_STATUS_WAITING
                 \<and> unat (wait_ticks (tasks s2 ! unat (current_task s_started))) = unat (2 :: u32) - ticks_in es)
             \<and> (ticks_in es = unat (2 :: u32) - 1 \<longrightarrow>
                   (\<exists>ts s3. tick_loop (size' s2) 1 (tasks s2) = Some ts
                       \<and> status (ts ! unat (current_task s_started)) = OS_TASK_STATUS_IDLE
                       \<and> SysTick_Handler s2 = Some s3
                       \<and> (status (tasks s3 ! unat (current_task s_started)) = OS_TASK_STATUS_IDLE
                         \<or> status (tasks s3 ! unat (current_task s_started)) = OS_TASK_STATUS_ACTIVE)))"
    by blast
  have s1: "s1 = s_delay2" using d by (simp add: s_delay2_def)
  from all [of "[Tick]"] obtain s2 where s2: "run cfg3 [Tick] s1 = Some s2" by blast
  then have s2': "s2 = s_delay2_tick" using s1 by (simp add: s_delay2_tick_def)
  have w0: "status (tasks s_delay2 ! 1) = OS_TASK_STATUS_WAITING" "wait_ticks (tasks s_delay2 ! 1) = 2"
    unfolding s_delay2_def s_started_def after_run_def task_a_def by code_simp+
  have w1: "status (tasks s_delay2_tick ! 1) = OS_TASK_STATUS_WAITING"
    "wait_ticks (tasks s_delay2_tick ! 1) = 1"
    unfolding s_delay2_tick_def s_delay2_def s_started_def after_run_def task_a_def by code_simp+
  have w2: "map_option (\<lambda>ts. status (ts ! 1)) (tick_loop (size' s_delay2_tick) 1 (tasks s_delay2_tick))
       = Some OS_TASK_STATUS_IDLE"
    unfolding s_delay2_tick_def s_delay2_def s_started_def after_run_def task_a_def by code_simp
  have w3: "map_option (\<lambda>s. status (tasks s ! 1)) (SysTick_Handler s_delay2_tick)
       = Some OS_TASK_STATUS_ACTIVE"
    unfolding s_delay2_tick_def s_delay2_def s_started_def after_run_def task_a_def by code_simp
  from r m c z d s1 s2 s2' w0 w1 w2 w3 show ?thesis by simp
qed

text \<open>
  C6 asks for every \<open>N\<close> that a task that calls \<^verbatim>\<open>os_delay(N)\<close> stops waiting in tick
  \<open>N\<close>. For \<open>N = 0\<close> the code does not do that. The first task of the started system
  calls \<^verbatim>\<open>os_delay(0)\<close>: it is marked waiting with a counter of 0, the first tick wraps
  the counter around, and after three ticks the task still waits, with \<open>2^32 - 3\<close>
  ticks to go.
\<close>

theorem C6_delay_zero_still_waiting:
  "reachable cfg3 s_started \<and> m_state s_started = OS_STATE_STARTED
   \<and> current_task s_started = 1 \<and> size' s_started = 2
   \<and> s_zero = after_run ([Init, task_a, Start 1000] @ [Delay 0])
   \<and> status (tasks s_zero ! 1) = OS_TASK_STATUS_WAITING
   \<and> wait_ticks (tasks s_zero ! 1) = 0
   \<and> s_zero_ticks = after_run ([Init, task_a, Start 1000] @ [Delay 0, Tick, Tick, Tick])
   \<and> status (tasks s_zero_ticks ! 1) = OS_TASK_STATUS_WAITING
   \<and> wait_ticks (tasks s_zero_ticks ! 1) = 0xFFFFFFFD"
proof -
  have "m_state s_started = OS_STATE_STARTED" "current_task s_started = 1" "size' s_started = 2"
    unfolding s_started_def after_run_def task_a_def by code_simp+
  moreover have "status (tasks s_zero ! 1) = OS_TASK_STATUS_WAITING"
    "wait_ticks (tasks s_zero ! 1) = 0"
    unfolding s_zero_def after_run_def task_a_def by code_simp+
  moreover have "status (tasks s_zero_ticks ! 1) = OS_TASK_STATUS_WAITING"
    "wait_ticks (tasks s_zero_ticks ! 1) = 0xFFFFFFFD"
    unfolding s_zero_ticks_def after_run_def task_a_def by code_simp+
  ultimately show ?thesis
    using after_run_reachable by (simp add: s_started_def s_zero_def s_zero_ticks_def)
qed

section \<open>The counters of waiting tasks\<close>

lemma tick_task_positive:
  "status t = OS_TASK_STATUS_WAITING \<longrightarrow> wait_ticks t \<noteq> 0 \<Longrightarrow>
   status (tick_task t) = OS_TASK_STATUS_WAITING \<longrightarrow> wait_ticks (tick_task t) \<noteq> 0"
  by (auto simp: tick_task_def)

lemma ticks_positive_reschedule:
  assumes inv: "kernel_inv cfg s" and tp: "ticks_positive s" and r: "reschedule s = Some s'"
  shows "ticks_positive s'"
  unfolding ticks_positive_def
proof (intro allI impI)
  fix i assume i: "i < length (tasks s')" and w: "status (tasks s' ! i) = OS_TASK_STATUS_WAITING"
  have il: "i < length (tasks s)" using i reschedule_length [OF inv r] by simp
  from reschedule_tcb [OF inv r il] w
  have "wait_ticks (tasks s' ! i) = wait_ticks (tasks s ! i)"
    "status (tasks s ! i) = OS_TASK_STATUS_WAITING" by auto
  with tp il show "wait_ticks (tasks s' ! i) \<noteq> 0" by (simp add: ticks_positive_def)
qed

lemma ticks_positive_mark:
  assumes tp: "ticks_positive s" and m: "os_delay_mark t s = Some (e, s')" and t: "t \<noteq> 0"
  shows "ticks_positive s'"
  using assms
  by (auto simp: os_delay_mark_def ticks_positive_def nth_list_update split: if_splits)

lemma ticks_positive_tick_loop:
  assumes inv: "kernel_inv cfg s" and tp: "ticks_positive s"
      and ts: "tick_loop (size' s) 1 (tasks s) = Some ts"
  shows "ticks_positive (s\<lparr>tasks := ts\<rparr>)"
proof -
  have "unat (size' s) \<le> length (tasks s)" using kernel_inv_size [OF inv] by simp
  from tick_loop_spec [OF this, of 1] ts
  have l: "length ts = length (tasks s)"
    and n: "\<forall>j<length (tasks s). ts ! j = (if 1 \<le> j \<and> j < unat (size' s) then tick_task (tasks s ! j) else tasks s ! j)"
    by auto
  show ?thesis
    unfolding ticks_positive_def
  proof (intro allI impI)
    fix i assume i: "i < length (tasks (s\<lparr>tasks := ts\<rparr>))"
      and w: "status (tasks (s\<lparr>tasks := ts\<rparr>) ! i) = OS_TASK_STATUS_WAITING"
    have il: "i < length (tasks s)" using i l by simp
    have p: "status (tasks s ! i) = OS_TASK_STATUS_WAITING \<longrightarrow> wait_ticks (tasks s ! i) \<noteq> 0"
      using tp il by (simp add: ticks_positive_def)
    show "wait_ticks (tasks (s\<lparr>tasks := ts\<rparr>) ! i) \<noteq> 0"
    proof (cases "1 \<le> i \<and> i < unat (size' s)")
      case True
      have "ts ! i = tick_task (tasks s ! i)" using n il True by auto
      with tick_task_positive [OF p] w show ?thesis by simp
    next
      case False
      have "ts ! i = tasks s ! i" using n il False by auto
      with p w show ?thesis by simp
    qed
  qed
qed

lemma ticks_positive_task_init:
  assumes inv: "kernel_inv cfg s" and tp: "ticks_positive s"
  shows "ticks_positive (snd (os_task_init cfg h p st n s))"
  using tp kernel_inv_size [OF inv]
  by (auto simp: os_task_init_def Let_def ticks_positive_def nth_list_update split: if_splits)

lemma ticks_positive_init:
  assumes tp: "ticks_positive s"
  shows "ticks_positive (snd (os_init cfg s))"
proof (cases "m_state s \<noteq> OS_STATE_DEFAULT")
  case True
  with tp show ?thesis by (simp add: os_init_def)
next
  case False
  let ?s2 = "s\<lparr>tasks := replicate (OS_TASKS_COUNT cfg) zero_task, current_task := 0, size' := 0,
               m_state := OS_STATE_INITIALIZED\<rparr>"
  have "kernel_inv cfg ?s2"
    by (simp add: kernel_inv_def OS_TASKS_COUNT_def zero_task_def)
  moreover have "ticks_positive ?s2" by (simp add: ticks_positive_def zero_task_def)
  ultimately have "ticks_positive (snd (os_idle_task_init cfg ?s2))"
    unfolding os_idle_task_init_def by (rule ticks_positive_task_init)
  then show ?thesis using False
    by (simp add: os_init_def Let_def ticks_positive_def)
qed

lemma ticks_positive_step:
  assumes inv: "kernel_inv cfg s" and tp: "ticks_positive s" and st: "step cfg e s = Some s'"
      and e: "e \<noteq> Delay 0" "e \<noteq> DelayMark 0"
  shows "ticks_positive s'"
proof (cases e)
  case Init
  with st ticks_positive_init [OF tp] show ?thesis by auto
next
  case (TaskInit h p stk n)
  with st ticks_positive_task_init [OF inv tp] show ?thesis by auto
next
  case (Start t)
  with st tp show ?thesis
    by (auto simp: os_start_def Let_def ticks_positive_def split: if_splits)
next
  case (Delay t)
  with st obtain x where x: "os_delay t s = Some x" "s' = snd x" by auto
  then obtain e1 s1 where m: "os_delay_mark t s = Some (e1, s1)"
    by (auto simp: os_delay_def split: option.splits)
  have t: "t \<noteq> 0" using Delay e by simp
  have tp1: "ticks_positive s1" using tp m t by (rule ticks_positive_mark)
  have inv1: "kernel_inv cfg s1" using inv m by (rule os_delay_mark_inv)
  show ?thesis
  proof (cases "e1 = OS_ERROR_OK")
    case False
    with x m tp1 show ?thesis by (auto simp: os_delay_def)
  next
    case True
    with x m have "reschedule s1 = Some s'" by (auto simp: os_delay_def os_svcall_handler_def)
    with inv1 tp1 show ?thesis by (rule ticks_positive_reschedule)
  qed
next
  case (DelayMark t)
  with st obtain x where x: "os_delay_mark t s = Some x" "s' = snd x" by auto
  have t: "t \<noteq> 0" using DelayMark e by simp
  from x ticks_positive_mark [OF tp _ t] show ?thesis by (metis prod.collapse)
next
  case Tick
  with st obtain ts where ts: "tick_loop (size' s) 1 (tasks s) = Some ts"
    and r: "reschedule (s\<lparr>tasks := ts\<rparr>) = Some s'"
    by (auto simp: SysTick_Handler_def os_reschedule_def split: option.splits)
  from tick_loop_inv [OF inv ts] ticks_positive_tick_loop [OF inv tp ts] r
  show ?thesis by (rule ticks_positive_reschedule)
next
  case (Svc n)
  with st tp ticks_positive_reschedule [OF inv tp] show ?thesis
    by (auto simp: os_svcall_handler_def split: if_splits)
qed

lemma ticks_positive_run:
  assumes "kernel_inv cfg s" and "ticks_positive s" and "nonzero_delays es"
      and "run cfg es s = Some s'"
  shows "ticks_positive s'"
  using assms
proof (induction es arbitrary: s)
  case Nil
  then show ?case by simp
next
  case (Cons e es)
  from Cons.prems(4) obtain s1 where s1: "step cfg e s = Some s1" and rest: "run cfg es s1 = Some s'"
    by (auto split: option.splits)
  have e: "e \<noteq> Delay 0" "e \<noteq> DelayMark 0" and es: "nonzero_delays es"
    using Cons.prems(3) by (auto simp: nonzero_delays_def)
  from Cons.IH [OF step_inv [OF Cons.prems(1) s1] ticks_positive_step [OF Cons.prems(1,2) s1 e] es rest]
  show ?case .
qed

text \<open>
  In a run in which no call of \<^verbatim>\<open>os_delay\<close> asks for zero ticks, a task that waits
  has a counter above zero, in every slot and in every state.
\<close>

lemma nonzero_delays_ticks_positive:
  assumes "nonzero_delays es" and "run cfg es (boot cfg ram0) = Some s"
  shows "ticks_positive s"
proof -
  have "ticks_positive (boot cfg ram0)"
    by (simp add: ticks_positive_def boot_def zero_task_def)
  from ticks_positive_run [OF boot_inv this assms] show ?thesis .
qed

text \<open>
  C5 holds of the code for every run but those in which \<^verbatim>\<open>os_delay\<close> is called with
  0 ticks, which \<^verbatim>\<open>os_delay\<close> does not refuse. In the run below the first task calls
  \<^verbatim>\<open>os_delay(0)\<close>: it is then waiting with a counter of 0; the next tick decrements the
  counter, which wraps around to \<open>2^32 - 1\<close>, and the task keeps waiting.
\<close>

theorem C5_delay_zero_underflow:
  "reachable cfg3 s_zero \<and> m_state s_zero = OS_STATE_STARTED
   \<and> status (tasks s_zero ! 1) = OS_TASK_STATUS_WAITING
   \<and> wait_ticks (tasks s_zero ! 1) = 0
   \<and> SysTick_Handler s_zero = Some s_zero_tick
   \<and> status (tasks s_zero_tick ! 1) = OS_TASK_STATUS_WAITING
   \<and> wait_ticks (tasks s_zero_tick ! 1) = 0xFFFFFFFF"
proof -
  have r: "reachable cfg3 s_zero" unfolding s_zero_def by (rule after_run_reachable)
  have a: "m_state s_zero = OS_STATE_STARTED" "status (tasks s_zero ! 1) = OS_TASK_STATUS_WAITING"
    "wait_ticks (tasks s_zero ! 1) = 0"
    unfolding s_zero_def after_run_def task_a_def by code_simp+
  have b: "status (tasks s_zero_tick ! 1) = OS_TASK_STATUS_WAITING"
    "wait_ticks (tasks s_zero_tick ! 1) = 0xFFFFFFFF"
    unfolding s_zero_tick_def after_run_def task_a_def by code_simp+
  from run_defined [OF boot_inv] obtain s1 where
    s1: "run cfg3 [Init, task_a, Start 1000, Delay 0] (boot cfg3 zero_ram) = Some s1" by blast
  from SysTick_Handler_defined [OF run_inv [OF boot_inv s1]] obtain s2 where
    s2: "SysTick_Handler s1 = Some s2" by blast
  have "run cfg3 ([Init, task_a, Start 1000, Delay 0] @ [Tick]) (boot cfg3 zero_ram) = Some s2"
    unfolding run_append using s1 s2 by simp
  then have "s_zero_tick = s2" by (simp add: s_zero_tick_def after_run_def)
  moreover have "s_zero = s1" using s1 by (simp add: s_zero_def after_run_def)
  ultimately have "SysTick_Handler s_zero = Some s_zero_tick" using s2 by simp
  with r a b show ?thesis by simp
qed

end
